theory Spec2Isabelle
  imports Main
begin

section \<open>Strings, exceptions and the platform\<close>

text \<open>
  A Python \<open>str\<close> is a sequence of Unicode code points; the delimiter sets of the program
  contain code points beyond ASCII (the ellipsis, the ideographic full stop, the em dash,
  the guillemets), so a character is modelled by its code point and a string by the list
  of its code points.
\<close>

type_synonym uchar = nat
type_synonym ustr = "uchar list"

abbreviation (input) NEWLINE :: uchar where "NEWLINE \<equiv> 10"
abbreviation (input) SPACE :: uchar where "SPACE \<equiv> 32"
abbreviation (input) COMMA :: uchar where "COMMA \<equiv> 44"
abbreviation (input) HYPHEN :: uchar where "HYPHEN \<equiv> 45"
abbreviation (input) PERIOD :: uchar where "PERIOD \<equiv> 46"
abbreviation (input) UNDERSCORE :: uchar where "UNDERSCORE \<equiv> 95"

definition ustr_of :: "string \<Rightarrow> ustr" where
  "ustr_of s = map of_char s"

text \<open>
  The exceptions the program can meet. All of them derive from Python's \<open>Exception\<close>,
  which is what the handler of \<open>_tokenize_sentences\<close> catches.
\<close>

datatype exn = IndexError | ValueError | ImportError | LookupError | RuntimeError

text \<open>
  What the program takes from outside the repository: the character classes of the
  Unicode database behind \<open>str.isalnum\<close>, \<open>str.isalpha\<close> and \<open>str.isspace\<close>
  (the latter is also the whitespace of \<open>strip\<close>, \<open>lstrip\<close> and \<open>split\<close>),
  \<open>emoji.replace_emoji(text, "")\<close>, and the two tokenizer backends as they stand after
  \<open>init_tokenizer\<close>: the NLTK call (importing the module included) and the global
  \<open>nlp\<close> of Stanza, \<open>None\<close> when Stanza was not initialised. A backend returns the
  list of sentence texts or raises.
\<close>

record platform =
  isalnum :: "uchar \<Rightarrow> bool"
  isalpha :: "uchar \<Rightarrow> bool"
  isspace :: "uchar \<Rightarrow> bool"
  replace_emoji :: "ustr \<Rightarrow> ustr"
  nltk_sent_tokenize :: "ustr \<Rightarrow> exn + ustr list"
  import_stanza :: "exn option"
  nlp :: "(ustr \<Rightarrow> exn + ustr list) option"

subsection \<open>The string operations of Python used by the program\<close>

definition lstrip :: "platform \<Rightarrow> ustr \<Rightarrow> ustr" where
  "lstrip P s = dropWhile (isspace P) s"

definition rstrip :: "platform \<Rightarrow> ustr \<Rightarrow> ustr" where
  "rstrip P s = rev (dropWhile (isspace P) (rev s))"

definition strip :: "platform \<Rightarrow> ustr \<Rightarrow> ustr" where
  "strip P s = lstrip P (rstrip P s)"

text \<open>\<open>s.split()\<close>: the maximal runs of non-whitespace, scanned left to right;
  \<open>w\<close> is the word being read.\<close>

fun split_loop :: "platform \<Rightarrow> ustr \<Rightarrow> ustr \<Rightarrow> ustr list" where
  "split_loop P w [] = (if w = [] then [] else [w])"
| "split_loop P w (c # cs) =
     (if isspace P c then (if w = [] then split_loop P [] cs else w # split_loop P [] cs)
      else split_loop P (w @ [c]) cs)"

definition split :: "platform \<Rightarrow> ustr \<Rightarrow> ustr list" where
  "split P s = split_loop P [] s"

text \<open>\<open>s.split(sep)\<close> for a one-character separator: empty pieces are kept.\<close>

fun split_on_loop :: "uchar \<Rightarrow> ustr \<Rightarrow> ustr \<Rightarrow> ustr list" where
  "split_on_loop sep w [] = [w]"
| "split_on_loop sep w (c # cs) =
     (if c = sep then w # split_on_loop sep [] cs else split_on_loop sep (w @ [c]) cs)"

definition split_on :: "uchar \<Rightarrow> ustr \<Rightarrow> ustr list" where
  "split_on sep s = split_on_loop sep [] s"

definition replace_char :: "uchar \<Rightarrow> uchar \<Rightarrow> ustr \<Rightarrow> ustr" where
  "replace_char old new s = map (\<lambda>c. if c = old then new else c) s"

text \<open>Slices with Python's treatment of negative and out-of-range bounds:
  \<open>xs[i:j]\<close>, \<open>xs[:j]\<close> and \<open>xs[i:]\<close>.\<close>

definition slice_bound :: "nat \<Rightarrow> int \<Rightarrow> nat" where
  "slice_bound n i = (if i < 0 then nat (max 0 (int n + i)) else min n (nat i))"

definition slice :: "'a list \<Rightarrow> int \<Rightarrow> int \<Rightarrow> 'a list" where
  "slice xs i j =
     (let a = slice_bound (length xs) i; b = slice_bound (length xs) j
      in take (b - a) (drop a xs))"

definition slice_to :: "'a list \<Rightarrow> int \<Rightarrow> 'a list" where
  "slice_to xs j = take (slice_bound (length xs) j) xs"

definition slice_from :: "'a list \<Rightarrow> int \<Rightarrow> 'a list" where
  "slice_from xs i = drop (slice_bound (length xs) i) xs"

text \<open>\<open>xs[i]\<close>: a negative index counts from the end, an index out of range raises.\<close>

definition index :: "'a list \<Rightarrow> int \<Rightarrow> exn + 'a" where
  "index xs i =
     (if 0 \<le> i \<and> i < int (length xs) then Inr (xs ! nat i)
      else if i < 0 \<and> - int (length xs) \<le> i then Inr (xs ! nat (int (length xs) + i))
      else Inl IndexError)"

section \<open>Helper functions of the module\<close>

definition remove_emojis :: "platform \<Rightarrow> ustr \<Rightarrow> ustr" where
  "remove_emojis P text = replace_emoji P text"

definition clean_text :: "platform \<Rightarrow> ustr \<Rightarrow> bool \<Rightarrow> bool \<Rightarrow> ustr" where
  "clean_text P text cleanup_text_emojis strip_text =
     (let text1 = (if cleanup_text_emojis then remove_emojis P text else text)
      in if strip_text then strip P text1 else text1)"

subsection \<open>The boundary heuristic\<close>

text \<open>
  The backward scan of \<open>_is_likely_sentence_boundary\<close>:
  \<open>while word_start >= 0 and (text[word_start].isalpha() or text[word_start] in {'-', '_'})\<close>.
  The argument is \<open>word_start + 1\<close>, the result the final \<open>word_start\<close>.
\<close>

definition word_char :: "platform \<Rightarrow> uchar \<Rightarrow> bool" where
  "word_char P c = (isalpha P c \<or> c = HYPHEN \<or> c = UNDERSCORE)"

fun scan_word_start :: "platform \<Rightarrow> ustr \<Rightarrow> nat \<Rightarrow> int" where
  "scan_word_start P text 0 = - 1"
| "scan_word_start P text (Suc i) =
     (if word_char P (text ! i) then scan_word_start P text i else int i)"

definition is_likely_sentence_boundary :: "platform \<Rightarrow> ustr \<Rightarrow> int \<Rightarrow> exn + bool" where
  "is_likely_sentence_boundary P text delimiter_pos =
     (if delimiter_pos < 1 then Inr False
      else if int (length text) \<le> delimiter_pos then Inl IndexError
      else
        let p = nat delimiter_pos; delimiter_char = text ! p in
        if delimiter_char = COMMA then
          (let fragment_before = strip P (slice_to text delimiter_pos) in
           if length fragment_before < 4 then Inr False
           else
             let words = split P fragment_before in
             if words \<noteq> [] \<and> length (last words) \<le> 3 then Inr False else Inr True)
        else if delimiter_char = PERIOD then
          (let word_start = scan_word_start P text p;
               word_before_dot = slice text (word_start + 1) delimiter_pos in
           if length word_before_dot \<le> 2
              \<and> delimiter_pos + 1 < int (length text)
              \<and> (isalnum P (text ! (p + 1)) \<or> text ! (p + 1) = PERIOD)
           then Inr False
           else Inr True)
        else Inr True)"


text \<open>
  The last whitespace-separated word of a string, read off the string directly: skip the
  trailing whitespace, then take the characters back to the next whitespace. It states
  the comma rule without \<open>split\<close>.
\<close>

definition last_word :: "platform \<Rightarrow> ustr \<Rightarrow> ustr" where
  "last_word P s = rev (takeWhile (\<lambda>c. \<not> isspace P c) (dropWhile (isspace P) (rev s)))"

text \<open>
  The maximal run of alphabetic, hyphen or underscore characters that ends just before
  position \<open>n\<close> of a text, read off the text directly.
\<close>

definition word_run :: "platform \<Rightarrow> ustr \<Rightarrow> nat \<Rightarrow> ustr" where
  "word_run P text n = rev (takeWhile (word_char P) (rev (take n text)))"

subsection \<open>The tokenizer adapter\<close>

text \<open>
  The backend call of \<open>_tokenize_sentences\<close>, written twice in the source (poetic and
  ordinary mode) with the same text: \<open>Inl\<close> is an exception, \<open>Inr None\<close> the early
  \<open>return [text]\<close> taken when Stanza is selected and \<open>nlp\<close> is \<open>None\<close>,
  \<open>Inr (Some sentences)\<close> the backend's sentences.
\<close>

definition run_backend :: "platform \<Rightarrow> string \<Rightarrow> ustr \<Rightarrow> exn + ustr list option" where
  "run_backend P current_tokenizer text =
     (if current_tokenizer = ''nltk'' then
        (case nltk_sent_tokenize P text of Inl e \<Rightarrow> Inl e | Inr sentences \<Rightarrow> Inr (Some sentences))
      else if current_tokenizer = ''stanza'' then
        (case import_stanza P of
           Some e \<Rightarrow> Inl e
         | None \<Rightarrow>
             (case nlp P of
                None \<Rightarrow> Inr None
              | Some pipeline \<Rightarrow>
                  (case pipeline text of Inl e \<Rightarrow> Inl e | Inr sentences \<Rightarrow> Inr (Some sentences))))
      else Inl ValueError)"

text \<open>
  The merging loop: \<open>combined\<close> is \<open>combined_sentences\<close>, \<open>temp\<close> is
  \<open>temp_sentence\<close>; the result is both at the end of the \<open>for\<close>.
\<close>

fun combine_loop :: "platform \<Rightarrow> ustr list \<Rightarrow> ustr \<Rightarrow> ustr list \<Rightarrow> ustr list \<times> ustr" where
  "combine_loop P combined temp [] = (combined, temp)"
| "combine_loop P combined temp (sentence # rest) =
     (if length sentence < 10 then combine_loop P combined (temp @ sentence @ [SPACE]) rest
      else if temp \<noteq> [] then combine_loop P (combined @ [strip P (temp @ sentence)]) [] rest
      else combine_loop P (combined @ [strip P sentence]) [] rest)"

definition combine_short_sentences :: "platform \<Rightarrow> ustr list \<Rightarrow> ustr list" where
  "combine_short_sentences P sentences =
     (case combine_loop P [] [] sentences of
        (combined, temp) \<Rightarrow> if temp \<noteq> [] then combined @ [strip P temp] else combined)"

text \<open>The choice between the merged and the raw list (the first assignment to
  \<open>result\<close>), and the rest of the \<open>try\<close> body after the backend call.\<close>

definition select_result :: "platform \<Rightarrow> ustr list \<Rightarrow> ustr list" where
  "select_result P sentences =
     (let combined_sentences = combine_short_sentences P sentences
      in if combined_sentences \<noteq> [] \<and> length combined_sentences < length sentences
         then combined_sentences else sentences)"

definition post_pass :: "platform \<Rightarrow> ustr \<Rightarrow> ustr list \<Rightarrow> ustr list" where
  "post_pass P text sentences =
     (let result = select_result P sentences in if result \<noteq> [] then result else [text])"

type_synonym tokenizer_callback = "ustr \<Rightarrow> exn + ustr list"

definition tokenize_sentences_adapter ::
  "platform \<Rightarrow> string \<Rightarrow> ustr \<Rightarrow> tokenizer_callback option \<Rightarrow> bool \<Rightarrow> bool \<Rightarrow> ustr list" where
  "tokenize_sentences_adapter P current_tokenizer text tokenize_sentences poetic_mode
       preserve_line_breaks =
     (case tokenize_sentences of
        Some callback \<Rightarrow>
          (case callback text of Inl e \<Rightarrow> [text] | Inr sentences \<Rightarrow> post_pass P text sentences)
      | None \<Rightarrow>
          if poetic_mode then
            if preserve_line_breaks then
              post_pass P text (filter (\<lambda>line. strip P line \<noteq> []) (split_on NEWLINE text))
            else
              (let text1 = replace_char NEWLINE SPACE text in
               case run_backend P current_tokenizer text1 of
                 Inl e \<Rightarrow> [text1]
               | Inr None \<Rightarrow> [text1]
               | Inr (Some sentences) \<Rightarrow> post_pass P text1 sentences)
          else
            (case run_backend P current_tokenizer text of
               Inl e \<Rightarrow> [text]
             | Inr None \<Rightarrow> [text]
             | Inr (Some sentences) \<Rightarrow> post_pass P text sentences))"

text \<open>
  The merge as the specification words it: each maximal run of adjacent entries shorter
  than 10 characters goes into the entry that follows it, joined with spaces, and the
  merged entry is stripped. A run at the end of the list has no following entry; the code
  makes one entry of it, and so does this definition.
\<close>

definition join_spaces :: "ustr list \<Rightarrow> ustr" where
  "join_spaces ss = concat (map (\<lambda>s. s @ [SPACE]) ss)"

function merge_runs :: "platform \<Rightarrow> ustr list \<Rightarrow> ustr list" where
  "merge_runs P ss =
     (if ss = [] then []
      else
        let run = takeWhile (\<lambda>s. length s < 10) ss; rest = dropWhile (\<lambda>s. length s < 10) ss
        in case rest of
             [] \<Rightarrow> [strip P (join_spaces run)]
           | following # rest' \<Rightarrow> strip P (join_spaces run @ following) # merge_runs P rest')"
  by pat_completeness auto
termination
proof (relation "measure (\<lambda>(P, ss). length ss)")
  show "wf (measure (\<lambda>(P, ss). length ss))" by simp
next
  fix P :: platform and ss x :: "ustr list" and xa :: "ustr list" and x21 :: ustr and x22 :: "ustr list"
  assume "xa = dropWhile (\<lambda>s. length s < 10) ss" and "xa = x21 # x22"
  then have "length (x21 # x22) \<le> length ss"
    by (metis length_dropWhile_le)
  then show "((P, x22), (P, ss)) \<in> measure (\<lambda>(P, ss). length ss)" by simp
qed

declare merge_runs.simps [simp del]


section \<open>The sentence generator\<close>

text \<open>
  The parameters of \<open>generate_sentences_async\<close> that its body reads. The parameters
  \<open>context_size_look_overhead\<close>, \<open>language\<close>, \<open>log_characters\<close>, \<open>debug\<close>,
  \<open>adaptive_context\<close>, \<open>smooth_short_fragments\<close> and \<open>cleanup_text_links\<close> only
  reach printing, the initialisation of the backend or values that are never read again,
  and are left out. Python's integers are unbounded: \<open>int\<close>.
\<close>

record config =
  context_size :: int
  minimum_sentence_length :: int
  minimum_first_fragment_length :: int
  quick_yield_single_sentence_fragment :: bool
  quick_yield_for_all_sentences :: bool
  quick_yield_every_fragment :: bool
  cleanup_text_emojis :: bool
  tokenize_sentences :: "tokenizer_callback option"
  tokenizer :: string
  filter_first_non_alnum_characters :: bool
  force_first_fragment_after_words :: int
  poetic_mode :: bool
  preserve_line_breaks :: bool
  max_buffer_size :: int
  tokenization_interval :: int
  strict_punctuation_mode :: bool
  min_chars_after_delimiter :: int
  sentence_fragment_delimiters :: ustr
  full_sentence_delimiters :: ustr

text \<open>The default values of the parameters; the two delimiter strings are
  \<open>".?!;:,\n\<dots>)]}\<close> followed by the ideographic full stop and the em dash, and
  \<open>".?!\n\<dots>"\<close> followed by the same two.\<close>

definition default_config :: config where
  "default_config =
     \<lparr>context_size = 15,
      minimum_sentence_length = 12,
      minimum_first_fragment_length = 8,
      quick_yield_single_sentence_fragment = True,
      quick_yield_for_all_sentences = False,
      quick_yield_every_fragment = False,
      cleanup_text_emojis = False,
      tokenize_sentences = None,
      tokenizer = ''stanza'',
      filter_first_non_alnum_characters = True,
      force_first_fragment_after_words = 15,
      poetic_mode = False,
      preserve_line_breaks = False,
      max_buffer_size = 700,
      tokenization_interval = 6,
      strict_punctuation_mode = True,
      min_chars_after_delimiter = 25,
      sentence_fragment_delimiters = [46, 63, 33, 59, 58, 44, 10, 8230, 41, 93, 125, 12290, 8212],
      full_sentence_delimiters = [46, 63, 33, 10, 8230, 12290, 8212]\<rparr>"

text \<open>\<open>IGNORED_DELIMITERS\<close>: the quotes, the brackets, the guillemets, carriage return
  and space. The characters let through by the leading filter, and the weak delimiters
  \<open>set(";:,")\<close> of the lookback check.\<close>

definition IGNORED_DELIMITERS :: "uchar list" where
  "IGNORED_DELIMITERS = [34, 39, 40, 41, 91, 93, 123, 125, 171, 187, 13, 32]"

definition leading_allowed :: "uchar list" where
  "leading_allowed = [40, 91, 171, 34, 39]"

definition lookback_weak_delimiters :: "uchar list" where
  "lookback_weak_delimiters = [59, 58, 44]"

text \<open>The local variables of the generator that live across loop iterations.\<close>

record state =
  buffer :: ustr
  is_first_sentence :: bool
  word_count :: int
  last_delimiter_position :: int
  fragment_count :: int
  tokenization_counter :: int
  chars_since_last_strong_delim :: int

definition initial_state :: state where
  "initial_state =
     \<lparr>buffer = [], is_first_sentence = True, word_count = 0, last_delimiter_position = - 1,
      fragment_count = 0, tokenization_counter = 0, chars_since_last_strong_delim = 0\<rparr>"

text \<open>
  What the generator does that a caller or the backend can observe, in order: a
  \<open>yield\<close>, tagged with the place in the source that yields, with the text handed to
  \<open>_clean_text\<close> and the cleaned text that is yielded; and a call of
  \<open>_tokenize_sentences\<close> with its argument.
\<close>

datatype site = ForcedSplit | FirstFragment | ValidatedSentence | FinalSentence

datatype event = Yield site ustr ustr | Tokenize ustr

definition emit :: "platform \<Rightarrow> config \<Rightarrow> site \<Rightarrow> ustr \<Rightarrow> event" where
  "emit P cfg s text = Yield s text (clean_text P text (cleanup_text_emojis cfg) True)"

fun fragments :: "event list \<Rightarrow> ustr list" where
  "fragments [] = []"
| "fragments (Yield s text yield_text # evs) = yield_text # fragments evs"
| "fragments (Tokenize text # evs) = fragments evs"

fun yielded_from :: "site \<Rightarrow> event \<Rightarrow> bool" where
  "yielded_from s (Yield s' text yield_text) = (s' = s)"
| "yielded_from s (Tokenize text) = False"

fun is_tokenize :: "event \<Rightarrow> bool" where
  "is_tokenize (Tokenize text) = True"
| "is_tokenize (Yield s text yield_text) = False"

text \<open>The adjustment of the quick-yield flags before the loop.\<close>

definition adjust_flags :: "config \<Rightarrow> config" where
  "adjust_flags cfg =
     (let cfg1 = (if quick_yield_every_fragment cfg
                  then cfg\<lparr>quick_yield_for_all_sentences := True\<rparr> else cfg)
      in if quick_yield_for_all_sentences cfg1
         then cfg1\<lparr>quick_yield_single_sentence_fragment := True\<rparr> else cfg1)"

subsection \<open>One iteration of the character loop\<close>

text \<open>The leading filter: the character is dropped and the iteration ends.\<close>

definition leading_filtered :: "platform \<Rightarrow> config \<Rightarrow> state \<Rightarrow> uchar \<Rightarrow> bool" where
  "leading_filtered P cfg st char =
     (length (buffer st) = 0 \<and> filter_first_non_alnum_characters cfg
      \<and> \<not> isalnum P char \<and> char \<notin> set leading_allowed)"

text \<open>Appending the character, stripping leading whitespace, and the two counters.\<close>

definition append_char :: "platform \<Rightarrow> config \<Rightarrow> state \<Rightarrow> uchar \<Rightarrow> state" where
  "append_char P cfg st char =
     (let st1 = st\<lparr>buffer := lstrip P (buffer st @ [char])\<rparr> in
      if isspace P char \<or> char \<in> set (sentence_fragment_delimiters cfg) then
        (let st2 = st1\<lparr>word_count := word_count st1 + 1\<rparr> in
         if char \<in> set (full_sentence_delimiters cfg) then
           st2\<lparr>chars_since_last_strong_delim := 0\<rparr>
         else if char \<notin> set IGNORED_DELIMITERS then
           st2\<lparr>chars_since_last_strong_delim := chars_since_last_strong_delim st2 + 1\<rparr>
         else st2)
      else st1\<lparr>chars_since_last_strong_delim := chars_since_last_strong_delim st1 + 1\<rparr>)"

text \<open>The forced split, taken when the buffer is longer than \<open>max_buffer_size\<close>.\<close>

definition forced_split :: "platform \<Rightarrow> config \<Rightarrow> state \<Rightarrow> state \<times> event list" where
  "forced_split P cfg st =
     (let forced_text = slice_to (buffer st) (max_buffer_size cfg div 2)
      in (st\<lparr>buffer := slice_from (buffer st) (max_buffer_size cfg div 2),
              word_count := max 0 (word_count st - 6),
              tokenization_counter := 0,
              chars_since_last_strong_delim := 0\<rparr>,
          [emit P cfg ForcedSplit forced_text]))"

text \<open>
  The first-fragment logic. \<open>Inr None\<close>: the iteration goes on to the checks below it;
  \<open>Inr (Some r)\<close>: the iteration ends here (\<open>continue\<close>) with state and events \<open>r\<close>;
  \<open>Inl IndexError\<close>: \<open>buffer[-1]\<close> on an empty buffer.
\<close>

definition first_fragment ::
  "platform \<Rightarrow> config \<Rightarrow> state \<Rightarrow> uchar \<Rightarrow> exn + (state \<times> event list) option" where
  "first_fragment P cfg st char =
     (if is_first_sentence st
         \<and> int (length (buffer st)) \<ge> minimum_first_fragment_length cfg
         \<and> quick_yield_single_sentence_fragment cfg
      then
        (case index (buffer st) (- 1) of
           Inl e \<Rightarrow> Inl e
         | Inr last_char \<Rightarrow>
             if last_char \<in> set (sentence_fragment_delimiters cfg)
                \<or> (isspace P char \<and> word_count st \<ge> force_first_fragment_after_words cfg)
             then
               (if last_char = COMMA \<and> length (strip P (buffer st)) < 6 then Inr (Some (st, []))
                else
                  Inr (Some
                    (st\<lparr>buffer := [],
                        is_first_sentence :=
                          (if \<not> quick_yield_every_fragment cfg then False else is_first_sentence st),
                        word_count := 0,
                        fragment_count := fragment_count st + 1,
                        tokenization_counter := 0,
                        chars_since_last_strong_delim := 0\<rparr>,
                     [emit P cfg FirstFragment (buffer st)])))
             else Inr None)
      else Inr None)"

text \<open>
  The interval between tokenizer calls. The source computes
  \<open>max(1, int(tokenization_interval * 0.6))\<close> for a weak and
  \<open>int(tokenization_interval * 1.0)\<close> for a strong delimiter in floating point; for an
  interval below \<open>2 ^ 50\<close> in absolute value the rounded product truncates to the exact
  quotient written here (below 1 the maximum decides).
\<close>

definition check_interval :: "config \<Rightarrow> bool \<Rightarrow> bool \<Rightarrow> int" where
  "check_interval cfg is_weak_delim is_strong_delim =
     (if is_weak_delim then max 1 ((tokenization_interval cfg * 3) div 5)
      else if is_strong_delim then tokenization_interval cfg
      else tokenization_interval cfg)"

text \<open>The tokenizer confirmation: the call of the adapter on the buffer and what
  follows it. \<open>st\<close> already has its tokenization counter reset.\<close>

definition tokenizer_confirmation :: "platform \<Rightarrow> config \<Rightarrow> state \<Rightarrow> state \<times> event list" where
  "tokenizer_confirmation P cfg st =
     (let sentences = tokenize_sentences_adapter P (tokenizer cfg) (buffer st)
                        (tokenize_sentences cfg) (poetic_mode cfg) (preserve_line_breaks cfg)
      in if length sentences > 1 then
           (let total_length_except_last = sum_list (map (\<lambda>s. int (length s)) (butlast sentences))
            in if total_length_except_last \<ge> minimum_sentence_length cfg then
                 (let ends_with_space = (buffer st \<noteq> [] \<and> last (buffer st) = SPACE)
                  in (st\<lparr>buffer := last sentences @ (if ends_with_space then [SPACE] else []),
                          is_first_sentence :=
                            (if quick_yield_for_all_sentences cfg then True else is_first_sentence st),
                          last_delimiter_position := - 1,
                          word_count := 0,
                          fragment_count := fragment_count st + 1,
                          chars_since_last_strong_delim := 0\<rparr>,
                      Tokenize (buffer st) #
                      map (emit P cfg ValidatedSentence)
                        (filter (\<lambda>s. int (length s) \<ge> minimum_sentence_length cfg div 2)
                           (butlast sentences))))
               else (st, [Tokenize (buffer st)]))
         else (st, [Tokenize (buffer st)]))"

text \<open>The rest of the iteration: the accumulation gate, the bookmark of the last strong
  delimiter, and the lookback check at \<open>buffer[-context_size]\<close>.\<close>

definition lookback :: "platform \<Rightarrow> config \<Rightarrow> state \<Rightarrow> uchar \<Rightarrow> exn + state \<times> event list" where
  "lookback P cfg st char =
     (if int (length (buffer st)) \<le> minimum_sentence_length cfg + context_size cfg then Inr (st, [])
      else
        let st1 = (if char \<in> set (full_sentence_delimiters cfg)
                   then st\<lparr>last_delimiter_position := int (length (buffer st)) - 1\<rparr> else st)
        in
        if int (length (buffer st1)) > context_size cfg then
          (case index (buffer st1) (- context_size cfg) of
             Inl e \<Rightarrow> Inl e
           | Inr delimiter_char \<Rightarrow>
               if (if strict_punctuation_mode cfg
                   then delimiter_char \<notin> set (sentence_fragment_delimiters cfg)
                   else delimiter_char \<in> set IGNORED_DELIMITERS)
               then Inr (st1, [])
               else
                 let is_strong_delim = delimiter_char \<in> set (full_sentence_delimiters cfg);
                     is_weak_delim = delimiter_char \<in> set lookback_weak_delimiters
                 in
                 if is_strong_delim \<or> is_weak_delim then
                   (let chars_after_delimiter = context_size cfg - 1 in
                    if chars_after_delimiter < min_chars_after_delimiter cfg then Inr (st1, [])
                    else
                      case is_likely_sentence_boundary P (buffer st1)
                             (int (length (buffer st1)) - context_size cfg) of
                        Inl e \<Rightarrow> Inl e
                      | Inr likely \<Rightarrow>
                          if \<not> likely then Inr (st1, [])
                          else
                            let st2 = st1\<lparr>tokenization_counter := tokenization_counter st1 + 1\<rparr>
                            in
                            if tokenization_counter st2 < check_interval cfg is_weak_delim is_strong_delim
                            then Inr (st2, [])
                            else Inr (tokenizer_confirmation P cfg (st2\<lparr>tokenization_counter := 0\<rparr>)))
                 else Inr (st1, []))
        else Inr (st1, []))"

definition process_char :: "platform \<Rightarrow> config \<Rightarrow> state \<Rightarrow> uchar \<Rightarrow> exn + state \<times> event list" where
  "process_char P cfg st char =
     (if leading_filtered P cfg st char then Inr (st, [])
      else
        let st1 = append_char P cfg st char in
        if int (length (buffer st1)) > max_buffer_size cfg then Inr (forced_split P cfg st1)
        else
          case first_fragment P cfg st1 char of
            Inl e \<Rightarrow> Inl e
          | Inr (Some r) \<Rightarrow> Inr r
          | Inr None \<Rightarrow> lookback P cfg st1 char)"

subsection \<open>The loop, the finalization and the generator\<close>

text \<open>
  The loop over the characters: the events so far, and the state at the end of the input
  or the exception that ended the generator.
\<close>

fun feed :: "platform \<Rightarrow> config \<Rightarrow> state \<Rightarrow> ustr \<Rightarrow> event list \<times> (exn + state)" where
  "feed P cfg st [] = ([], Inr st)"
| "feed P cfg st (char # chars) =
     (case process_char P cfg st char of
        Inl e \<Rightarrow> ([], Inl e)
      | Inr (st', evs) \<Rightarrow>
          (case feed P cfg st' chars of (evs', r) \<Rightarrow> (evs @ evs', r)))"

text \<open>The characters of the input that pass the leading filter, in order (the others
  never reach the buffer).\<close>

fun accepted :: "platform \<Rightarrow> config \<Rightarrow> state \<Rightarrow> ustr \<Rightarrow> ustr" where
  "accepted P cfg st [] = []"
| "accepted P cfg st (char # chars) =
     (case process_char P cfg st char of
        Inl e \<Rightarrow> []
      | Inr (st', evs) \<Rightarrow>
          (if leading_filtered P cfg st char then [] else [char]) @ accepted P cfg st' chars)"

text \<open>The loop over the sentences of the remainder; \<open>sentence_buffer\<close> is the join
  buffer.\<close>

fun final_loop :: "platform \<Rightarrow> config \<Rightarrow> ustr \<Rightarrow> ustr list \<Rightarrow> event list" where
  "final_loop P cfg sentence_buffer [] =
     (if sentence_buffer \<noteq> [] then [emit P cfg FinalSentence sentence_buffer] else [])"
| "final_loop P cfg sentence_buffer (sentence # rest) =
     (let sentence_buffer1 = sentence_buffer @ sentence in
      if int (length sentence_buffer1) < minimum_sentence_length cfg
      then final_loop P cfg (sentence_buffer1 @ [SPACE]) rest
      else emit P cfg FinalSentence sentence_buffer1 # final_loop P cfg [] rest)"

definition finalize :: "platform \<Rightarrow> config \<Rightarrow> state \<Rightarrow> event list" where
  "finalize P cfg st =
     (if buffer st \<noteq> [] then
        Tokenize (buffer st) #
        final_loop P cfg []
          (tokenize_sentences_adapter P (tokenizer cfg) (buffer st) (tokenize_sentences cfg)
             (poetic_mode cfg) (preserve_line_breaks cfg))
      else [])"

text \<open>
  The generator on a stream of chunks (\<open>_generate_characters\<close> hands over their
  characters one by one): its events, and the exception that ended it, if any.
\<close>

definition generate_sentences_async ::
  "platform \<Rightarrow> config \<Rightarrow> ustr list \<Rightarrow> event list \<times> exn option" where
  "generate_sentences_async P cfg0 generator =
     (let cfg = adjust_flags cfg0 in
      case feed P cfg initial_state (concat generator) of
        (evs, Inl e) \<Rightarrow> (evs, Some e)
      | (evs, Inr st) \<Rightarrow> (evs @ finalize P cfg st, None))"


text \<open>
  Two observations on an event. \<open>source_length_ok\<close>: the text handed to
  \<open>_clean_text\<close> is at least as long as the threshold that guards the yield in the
  source (half the minimum sentence length for a validated sentence, the minimum first
  fragment length for a first fragment, the minimum sentence length inside the
  finalization loop; a forced split has no threshold). \<open>cleaned\<close>: the yielded text is
  the cleaned form of that text.
\<close>

fun source_length_ok :: "config \<Rightarrow> event \<Rightarrow> bool" where
  "source_length_ok cfg (Yield ValidatedSentence text yield_text) =
     (minimum_sentence_length cfg div 2 \<le> int (length text))"
| "source_length_ok cfg (Yield FirstFragment text yield_text) =
     (minimum_first_fragment_length cfg \<le> int (length text))"
| "source_length_ok cfg (Yield FinalSentence text yield_text) =
     (minimum_sentence_length cfg \<le> int (length text))"
| "source_length_ok cfg (Yield ForcedSplit text yield_text) = True"
| "source_length_ok cfg (Tokenize text) = True"

fun cleaned :: "platform \<Rightarrow> config \<Rightarrow> event \<Rightarrow> bool" where
  "cleaned P cfg (Yield s text yield_text) =
     (yield_text = clean_text P text (cleanup_text_emojis cfg) True)"
| "cleaned P cfg (Tokenize text) = True"

text \<open>A text without its whitespace, for comparing texts up to whitespace.\<close>

definition without_whitespace :: "platform \<Rightarrow> ustr \<Rightarrow> ustr" where
  "without_whitespace P s = filter (\<lambda>c. \<not> isspace P c) s"

text \<open>The texts handed to \<open>_clean_text\<close> before each yield, in the order of the yields.\<close>

fun source_texts :: "event list \<Rightarrow> ustr list" where
  "source_texts [] = []"
| "source_texts (Yield s text yield_text # evs) = text # source_texts evs"
| "source_texts (Tokenize text # evs) = source_texts evs"

section \<open>Concrete inputs\<close>

text \<open>
  A platform for evaluating the program on ASCII text: the three character classes agree
  with CPython on the code points below 128, no emoji is removed, and no backend is
  installed (the NLTK call raises, \<open>nlp\<close> is \<open>None\<close>).
\<close>

definition ascii_isalpha :: "uchar \<Rightarrow> bool" where
  "ascii_isalpha c = ((65 \<le> c \<and> c \<le> 90) \<or> (97 \<le> c \<and> c \<le> 122))"

definition ascii_isalnum :: "uchar \<Rightarrow> bool" where
  "ascii_isalnum c = (ascii_isalpha c \<or> (48 \<le> c \<and> c \<le> 57))"

definition ascii_isspace :: "uchar \<Rightarrow> bool" where
  "ascii_isspace c = ((9 \<le> c \<and> c \<le> 13) \<or> (28 \<le> c \<and> c \<le> 32))"

definition ascii_platform :: platform where
  "ascii_platform =
     \<lparr>isalnum = ascii_isalnum, isalpha = ascii_isalpha, isspace = ascii_isspace,
      replace_emoji = (\<lambda>s. s), nltk_sent_tokenize = (\<lambda>t. Inl LookupError),
      import_stanza = None, nlp = None\<rparr>"

text \<open>
  A custom tokenizer callback that ends a sentence after every full stop that a space
  follows, and drops that space; it neither invents nor loses any other character.
\<close>

fun period_split :: "ustr \<Rightarrow> ustr \<Rightarrow> ustr list" where
  "period_split w [] = (if w = [] then [] else [w])"
| "period_split w [c] = [w @ [c]]"
| "period_split w (c # d # ds) =
     (if c = PERIOD \<and> d = SPACE then (w @ [c]) # period_split [] ds
      else period_split (w @ [c]) (d # ds))"

definition period_tokenizer :: tokenizer_callback where
  "period_tokenizer text = Inr (period_split [] text)"

text \<open>A callback that finds no sentence at all.\<close>

definition empty_tokenizer :: tokenizer_callback where
  "empty_tokenizer text = Inr []"

text \<open>A callback that returns the text as its only sentence.\<close>

definition whole_text_tokenizer :: tokenizer_callback where
  "whole_text_tokenizer text = Inr [text]"


text \<open>Configurations and loop states for evaluating single iterations: a buffer limit
  of 8 characters, the state of the loop after the input \<open>abcdefgh\<close>, and the state
  after \<open>Hello yo\<close>.\<close>

definition config_limit8 :: config where
  "config_limit8 = default_config\<lparr>max_buffer_size := 8\<rparr>"

definition state_abcdefgh :: state where
  "state_abcdefgh =
     initial_state\<lparr>buffer := ustr_of ''abcdefgh'', chars_since_last_strong_delim := 8\<rparr>"

definition state_hello_yo :: state where
  "state_hello_yo =
     initial_state\<lparr>buffer := ustr_of ''Hello yo'', word_count := 1,
                    chars_since_last_strong_delim := 7\<rparr>"

text \<open>
  More configurations: the defaults with a custom callback; a buffer limit of 1; and a
  configuration in which the lookback check reaches the tokenizer (3 characters of
  context, of which 2 are required after the delimiter, a tokenizer call at every
  candidate, a minimum sentence length of 24, no quick first fragment, the callback that
  splits after full stops).
\<close>

definition config_whole_text :: config where
  "config_whole_text = default_config\<lparr>tokenize_sentences := Some whole_text_tokenizer\<rparr>"

definition config_limit1 :: config where
  "config_limit1 = default_config\<lparr>max_buffer_size := 1\<rparr>"

definition config_probe :: config where
  "config_probe =
     default_config\<lparr>context_size := 3, min_chars_after_delimiter := 2,
       minimum_sentence_length := 24, quick_yield_single_sentence_fragment := False,
       tokenization_interval := 1, tokenize_sentences := Some period_tokenizer\<rparr>"

text \<open>The defining equations that evaluate a run of the generator on a concrete input.\<close>

lemmas run_simps = process_char_def leading_filtered_def append_char_def forced_split_def emit_def
  first_fragment_def lookback_def tokenizer_confirmation_def check_interval_def finalize_def
  generate_sentences_async_def is_likely_sentence_boundary_def
  tokenize_sentences_adapter_def post_pass_def select_result_def combine_short_sentences_def
  run_backend_def initial_state_def Let_def default_config_def adjust_flags_def
  ascii_platform_def ascii_isspace_def ascii_isalnum_def ascii_isalpha_def
  ustr_of_def lstrip_def rstrip_def strip_def clean_text_def remove_emojis_def
  slice_to_def slice_from_def slice_bound_def slice_def index_def split_def word_char_def
  leading_allowed_def IGNORED_DELIMITERS_def lookback_weak_delimiters_def
  period_tokenizer_def whole_text_tokenizer_def replace_char_def

section \<open>Properties of the boundary heuristic\<close>

subsection \<open>The comma rule\<close>

lemma split_loop_Nil_iff:
  "split_loop P w s = [] \<longleftrightarrow> w = [] \<and> (\<forall>c\<in>set s. isspace P c)"
  by (induction s arbitrary: w) auto

lemma last_word_all_space:
  "\<forall>c\<in>set s. isspace P c \<Longrightarrow> last_word P (w @ s) = last_word P w"
proof -
  assume a: "\<forall>c\<in>set s. isspace P c"
  have "dropWhile (isspace P) (rev s @ rev w) = dropWhile (isspace P) (rev w)"
    by (rule dropWhile_append2) (use a in auto)
  then show ?thesis by (simp add: last_word_def)
qed

lemma last_word_nonspace:
  "\<forall>c\<in>set w. \<not> isspace P c \<Longrightarrow> last_word P w = w"
proof -
  assume a: "\<forall>c\<in>set w. \<not> isspace P c"
  have "dropWhile (isspace P) (rev w) = rev w"
    using a by (cases "rev w") auto
  moreover have "takeWhile (\<lambda>c. \<not> isspace P c) (rev w) = rev w"
    using a by (simp add: takeWhile_eq_all_conv)
  ultimately have "rev (takeWhile (\<lambda>c. \<not> isspace P c) (dropWhile (isspace P) (rev w))) = rev (rev w)"
    by (simp only:)
  then show ?thesis by (simp add: last_word_def)
qed

lemma last_word_after_space:
  assumes "isspace P c" and "\<exists>x\<in>set cs. \<not> isspace P x"
  shows "last_word P (pre @ c # cs) = last_word P cs"
proof -
  let ?D = "dropWhile (isspace P) (rev cs)"
  have ex: "\<exists>x\<in>set (rev cs). \<not> isspace P x" using assms(2) by simp
  then obtain x where x: "x \<in> set (rev cs)" "\<not> isspace P x" by blast
  have d: "dropWhile (isspace P) (rev cs @ c # rev pre) = ?D @ c # rev pre"
    using x by (rule dropWhile_append1)
  have "takeWhile (\<lambda>c. \<not> isspace P c) (?D @ c # rev pre) = takeWhile (\<lambda>c. \<not> isspace P c) ?D"
  proof (cases "\<forall>x\<in>set ?D. \<not> isspace P x")
    case True
    then have "takeWhile (\<lambda>c. \<not> isspace P c) ?D = ?D"
      by (simp add: takeWhile_eq_all_conv)
    moreover have "takeWhile (\<lambda>c. \<not> isspace P c) (?D @ c # rev pre) = ?D @ takeWhile (\<lambda>c. \<not> isspace P c) (c # rev pre)"
      by (rule takeWhile_append2) (use True in auto)
    moreover have "takeWhile (\<lambda>c. \<not> isspace P c) (c # rev pre) = []"
      using assms(1) by simp
    ultimately show ?thesis by (simp only: append_Nil2)
  next
    case False
    then obtain y where "y \<in> set ?D" "\<not> \<not> isspace P y" by blast
    then show ?thesis by (rule takeWhile_append1)
  qed
  with d show ?thesis by (simp add: last_word_def)
qed

lemma last_split_loop:
  "\<forall>c\<in>set w. \<not> isspace P c \<Longrightarrow> split_loop P w s \<noteq> [] \<Longrightarrow>
   last (split_loop P w s) = last_word P (w @ s)"
proof (induction s arbitrary: w)
  case Nil
  then show ?case by (simp add: last_word_nonspace split: if_splits)
next
  case (Cons c cs)
  show ?case
  proof (cases "isspace P c")
    case False
    with Cons.prems have "last (split_loop P (w @ [c]) cs) = last_word P ((w @ [c]) @ cs)"
      by (intro Cons.IH) auto
    with False show ?thesis by simp
  next
    case True
    show ?thesis
    proof (cases "split_loop P [] cs = []")
      case e: True
      then have all: "\<forall>x\<in>set (c # cs). isspace P x"
        using True by (simp add: split_loop_Nil_iff)
      from e Cons.prems True have w: "w \<noteq> []" by auto
      have "last_word P (w @ c # cs) = last_word P w"
        using all by (rule last_word_all_space)
      also have "\<dots> = w" using Cons.prems(1) by (rule last_word_nonspace)
      finally show ?thesis using True e w by simp
    next
      case ne: False
      then have ex: "\<exists>x\<in>set cs. \<not> isspace P x" by (simp add: split_loop_Nil_iff)
      have "last (split_loop P [] cs) = last_word P ([] @ cs)"
        using ne by (intro Cons.IH) auto
      moreover have "last_word P (w @ c # cs) = last_word P cs"
        using True ex by (rule last_word_after_space)
      ultimately show ?thesis using True ne by simp
    qed
  qed
qed

lemma last_split:
  "split P s \<noteq> [] \<Longrightarrow> last (split P s) = last_word P s"
  using last_split_loop [of "[]" P s] by (simp add: split_def)

lemma last_word_rstrip: "last_word P (rstrip P s) = last_word P s"
  by (simp add: last_word_def rstrip_def)

lemma last_word_lstrip: "last_word P (lstrip P s) = last_word P s"
proof (induction s)
  case Nil
  then show ?case by (simp add: lstrip_def)
next
  case (Cons c cs)
  show ?case
  proof (cases "isspace P c")
    case False
    then show ?thesis by (simp add: lstrip_def)
  next
    case True
    show ?thesis
    proof (cases "\<exists>x\<in>set cs. \<not> isspace P x")
      case True
      with \<open>isspace P c\<close> have "last_word P ([] @ c # cs) = last_word P cs"
        by (rule last_word_after_space)
      with Cons \<open>isspace P c\<close> show ?thesis by (simp add: lstrip_def)
    next
      case False
      then have "\<forall>x\<in>set (c # cs). isspace P x" using \<open>isspace P c\<close> by simp
      then have "last_word P ([] @ c # cs) = last_word P []"
        by (rule last_word_all_space)
      moreover have "last_word P ([] @ cs) = last_word P []"
        using False by (intro last_word_all_space) simp
      ultimately show ?thesis using Cons \<open>isspace P c\<close> by (simp add: lstrip_def)
    qed
  qed
qed

lemma last_word_strip: "last_word P (strip P s) = last_word P s"
  by (simp add: strip_def last_word_lstrip last_word_rstrip)

lemma strip_nonempty_split:
  assumes "strip P s \<noteq> []"
  shows "split P (strip P s) \<noteq> []"
proof -
  have "\<not> isspace P (hd (strip P s))"
    using assms unfolding strip_def lstrip_def by (rule hd_dropWhile)
  moreover have "hd (strip P s) \<in> set (strip P s)" using assms by simp
  ultimately show ?thesis by (auto simp: split_def split_loop_Nil_iff)
qed

lemma comma_short_word:
  assumes "length (strip P s) \<ge> 4"
  shows "last (split P (strip P s)) = last_word P s \<and> split P (strip P s) \<noteq> []"
proof -
  from assms have "strip P s \<noteq> []" by auto
  then have "split P (strip P s) \<noteq> []" by (rule strip_nonempty_split)
  then show ?thesis by (simp add: last_split last_word_strip)
qed

lemma last_word_two:
  assumes "2 \<le> n" "n \<le> length text"
    and "\<not> isspace P (text ! (n - 1))" "\<not> isspace P (text ! (n - 2))"
    and "n = 2 \<or> isspace P (text ! (n - 3))"
  shows "last_word P (take n text) = [text ! (n - 2), text ! (n - 1)]"
proof -
  obtain m where n: "n = Suc (Suc m)" using assms(1) by (metis Suc_le_D numeral_2_eq_2 Suc_le_mono)
  have m: "m < length text" "Suc m < length text" using assms(2) n by auto
  have t: "take n text = take m text @ [text ! m, text ! Suc m]"
    using m by (simp add: n take_Suc_conv_app_nth)
  have "takeWhile (\<lambda>c. \<not> isspace P c) (rev (take m text)) = []"
  proof (cases m)
    case 0
    then show ?thesis by simp
  next
    case (Suc k)
    then have "k < length text" using m by simp
    then have "rev (take m text) = text ! k # rev (take k text)"
      by (simp add: Suc take_Suc_conv_app_nth)
    moreover have "isspace P (text ! k)" using assms(5) n Suc by simp
    ultimately show ?thesis by simp
  qed
  moreover have "rev (take n text) = text ! Suc m # text ! m # rev (take m text)"
    using t by simp
  moreover have "\<not> isspace P (text ! Suc m)" "\<not> isspace P (text ! m)"
    using assms(3,4) n by simp_all
  ultimately have "last_word P (take n text) = [text ! m, text ! Suc m]"
    unfolding last_word_def by simp
  then show ?thesis by (simp add: n)
qed

lemma comma_rule_from_start:
  assumes "0 \<le> p" and "p < int (length text)" and "text ! nat p = COMMA"
  shows "(length (strip P (take (nat p) text)) < 4
            \<longrightarrow> is_likely_sentence_boundary P text p = Inr False)
       \<and> (length (last_word P (take (nat p) text)) \<le> 3
            \<longrightarrow> is_likely_sentence_boundary P text p = Inr False)
       \<and> (2 \<le> p \<and> \<not> isspace P (text ! (nat p - 1)) \<and> \<not> isspace P (text ! (nat p - 2))
            \<and> (p = 2 \<or> isspace P (text ! (nat p - 3)))
            \<longrightarrow> is_likely_sentence_boundary P text p = Inr False)"
proof -
  let ?s = "take (nat p) text"
  have st: "p \<ge> 1 \<Longrightarrow> slice_to text p = ?s"
    using assms(2) by (simp add: slice_to_def slice_bound_def)
  have small: "p < 1 \<Longrightarrow> is_likely_sentence_boundary P text p = Inr False"
    by (simp add: is_likely_sentence_boundary_def)
  have a: "length (strip P ?s) < 4 \<Longrightarrow> is_likely_sentence_boundary P text p = Inr False"
    using assms st small by (cases "p < 1") (simp_all add: is_likely_sentence_boundary_def Let_def)
  have b: "is_likely_sentence_boundary P text p = Inr False" if w: "length (last_word P ?s) \<le> 3"
  proof (cases "p < 1 \<or> length (strip P ?s) < 4")
    case True
    then show ?thesis using a small by blast
  next
    case False
    then have "last (split P (strip P ?s)) = last_word P ?s \<and> split P (strip P ?s) \<noteq> []"
      by (intro comma_short_word) simp
    then show ?thesis
      using False assms st w by (simp add: is_likely_sentence_boundary_def Let_def)
  qed
  have c: "is_likely_sentence_boundary P text p = Inr False"
    if h: "2 \<le> p \<and> \<not> isspace P (text ! (nat p - 1)) \<and> \<not> isspace P (text ! (nat p - 2))
            \<and> (p = 2 \<or> isspace P (text ! (nat p - 3)))"
  proof -
    have "last_word P ?s = [text ! (nat p - 2), text ! (nat p - 1)]"
      using h assms(2) by (intro last_word_two) auto
    then show ?thesis using b by simp
  qed
  from a b c show ?thesis by blast
qed


text \<open>
  Claim C4. Where the character at position \<open>p\<close> of the text is a comma (\<open>text[p]\<close>,
  with Python's reading of a negative position), \<open>_is_likely_sentence_boundary\<close>
  returns \<open>False\<close> if the trimmed text before the comma, \<open>text[:p].strip()\<close>, has
  fewer than 4 characters, and also if the last whitespace-separated word before the
  comma has at most 3 characters; in particular it returns \<open>False\<close> for a comma that
  directly follows a word of exactly two characters (two non-whitespace characters with
  the start of the text or whitespace before them).
\<close>

theorem comma_rule:
  assumes "index text p = Inr COMMA"
  shows "(length (strip P (slice_to text p)) < 4
            \<longrightarrow> is_likely_sentence_boundary P text p = Inr False)
       \<and> (length (last_word P (slice_to text p)) \<le> 3
            \<longrightarrow> is_likely_sentence_boundary P text p = Inr False)
       \<and> (2 \<le> p \<and> \<not> isspace P (text ! (nat p - 1)) \<and> \<not> isspace P (text ! (nat p - 2))
            \<and> (p = 2 \<or> isspace P (text ! (nat p - 3)))
            \<longrightarrow> is_likely_sentence_boundary P text p = Inr False)"
proof (cases "p < 1")
  case True
  then show ?thesis by (simp add: is_likely_sentence_boundary_def)
next
  case False
  with assms have r: "0 \<le> p" "p < int (length text)" "text ! nat p = COMMA"
    by (auto simp: index_def split: if_splits)
  have "slice_to text p = take (nat p) text"
    using r by (simp add: slice_to_def slice_bound_def)
  with comma_rule_from_start [OF r, of P] show ?thesis by simp
qed

theorem comma_rule_witness:
  "index (ustr_of ''Mr, he went home.'') 2 = Inr COMMA
   \<and> length (last_word ascii_platform (slice_to (ustr_of ''Mr, he went home.'') 2)) \<le> 3
   \<and> is_likely_sentence_boundary ascii_platform (ustr_of ''Mr, he went home.'') 2 = Inr False"
proof -
  let ?text = "ustr_of ''Mr, he went home.''"
  have h: "index ?text 2 = Inr COMMA" by (simp add: index_def ustr_of_def)
  have w: "length (last_word ascii_platform (slice_to ?text 2)) \<le> 3" by code_simp
  have "is_likely_sentence_boundary ascii_platform ?text 2 = Inr False"
    using comma_rule [OF h, of ascii_platform] w by blast
  with h w show ?thesis by simp
qed

subsection \<open>The period rule\<close>

lemma scan_word_start_run:
  "n \<le> length text \<Longrightarrow>
   scan_word_start P text n = int n - 1 - int (length (takeWhile (word_char P) (rev (take n text))))"
proof (induction n)
  case 0
  then show ?case by simp
next
  case (Suc i)
  then have i: "i < length text" by simp
  then have "rev (take (Suc i) text) = text ! i # rev (take i text)"
    by (simp add: take_Suc_conv_app_nth)
  with Suc show ?case by simp
qed



lemma slice_length:
  "a \<le> b \<Longrightarrow> b \<le> length xs \<Longrightarrow> length (slice xs (int a) (int b)) = b - a"
  by (auto simp: slice_def slice_bound_def Let_def)

lemma word_before_dot_length:
  assumes "1 \<le> p" and "p < int (length text)"
  shows "length (slice text (scan_word_start P text (nat p) + 1) p)
           = length (word_run P text (nat p))"
proof -
  let ?r = "length (takeWhile (word_char P) (rev (take (nat p) text)))"
  have le: "?r \<le> nat p"
    using length_takeWhile_le [of "word_char P" "rev (take (nat p) text)"] assms by simp
  have ws: "scan_word_start P text (nat p) + 1 = int (nat p - ?r)"
    using assms le by (simp add: scan_word_start_run)
  have p: "p = int (nat p)" using assms by simp
  have "length (slice text (int (nat p - ?r)) (int (nat p))) = nat p - (nat p - ?r)"
    using assms by (intro slice_length) simp_all
  then have "length (slice text (scan_word_start P text (nat p) + 1) p) = ?r"
    using le ws p by simp
  then show ?thesis by (simp add: word_run_def)
qed

text \<open>
  Claim C5. For every position \<open>p < 1\<close> the function returns \<open>False\<close>; this guard
  comes first. Past it, for every position whose character is a period, the function
  returns \<open>False\<close> exactly when the maximal run of alphabetic, hyphen or underscore
  characters just before the period has at most 2 characters and a character follows the
  period that is alphanumeric or a period, and \<open>True\<close> otherwise; and for every
  position whose character is neither a comma nor a period it returns \<open>True\<close>.
\<close>

theorem period_rule:
  "(p < 1 \<longrightarrow> is_likely_sentence_boundary P text p = Inr False)
   \<and> (1 \<le> p \<and> p < int (length text) \<and> text ! nat p = PERIOD \<longrightarrow>
        is_likely_sentence_boundary P text p =
          Inr (\<not> (length (word_run P text (nat p)) \<le> 2
                   \<and> p + 1 < int (length text)
                   \<and> (isalnum P (text ! (nat p + 1)) \<or> text ! (nat p + 1) = PERIOD))))
   \<and> (1 \<le> p \<and> p < int (length text) \<and> text ! nat p \<noteq> COMMA \<and> text ! nat p \<noteq> PERIOD \<longrightarrow>
        is_likely_sentence_boundary P text p = Inr True)"
proof (intro conjI impI)
  assume "p < 1"
  then show "is_likely_sentence_boundary P text p = Inr False"
    by (simp add: is_likely_sentence_boundary_def)
next
  assume a: "1 \<le> p \<and> p < int (length text) \<and> text ! nat p = PERIOD"
  then have "length (slice text (scan_word_start P text (nat p) + 1) p)
               = length (word_run P text (nat p))"
    by (intro word_before_dot_length) simp_all
  with a show "is_likely_sentence_boundary P text p =
          Inr (\<not> (length (word_run P text (nat p)) \<le> 2
                   \<and> p + 1 < int (length text)
                   \<and> (isalnum P (text ! (nat p + 1)) \<or> text ! (nat p + 1) = PERIOD)))"
    by (simp add: is_likely_sentence_boundary_def Let_def)
next
  assume "1 \<le> p \<and> p < int (length text) \<and> text ! nat p \<noteq> COMMA \<and> text ! nat p \<noteq> PERIOD"
  then show "is_likely_sentence_boundary P text p = Inr True"
    by (simp add: is_likely_sentence_boundary_def Let_def)
qed

theorem period_rule_witness:
  "ustr_of ''e.g. yes'' ! 1 = PERIOD
   \<and> length (word_run ascii_platform (ustr_of ''e.g. yes'') 1) \<le> 2
   \<and> isalnum ascii_platform (ustr_of ''e.g. yes'' ! 2)
   \<and> is_likely_sentence_boundary ascii_platform (ustr_of ''e.g. yes'') 1 = Inr False
   \<and> is_likely_sentence_boundary ascii_platform (ustr_of ''e.g. yes'') 0 = Inr False
   \<and> is_likely_sentence_boundary ascii_platform (ustr_of ''Go! Now'') 2 = Inr True"
proof -
  let ?t = "ustr_of ''e.g. yes''"
  have h: "(1::int) \<le> 1 \<and> 1 < int (length ?t) \<and> ?t ! nat 1 = PERIOD"
    by (simp add: ustr_of_def)
  have c: "length (word_run ascii_platform ?t (nat 1)) \<le> 2 \<and> (1::int) + 1 < int (length ?t)
           \<and> (isalnum ascii_platform (?t ! (nat 1 + 1)) \<or> ?t ! (nat 1 + 1) = PERIOD)"
    by code_simp
  have r1: "is_likely_sentence_boundary ascii_platform ?t 1 = Inr False"
    using period_rule [of 1 ascii_platform ?t] h c by simp
  have r0: "is_likely_sentence_boundary ascii_platform ?t 0 = Inr False"
    using period_rule [of 0 ascii_platform ?t] by simp
  let ?u = "ustr_of ''Go! Now''"
  have g: "(1::int) \<le> 2 \<and> 2 < int (length ?u) \<and> ?u ! nat 2 \<noteq> COMMA \<and> ?u ! nat 2 \<noteq> PERIOD"
    by (simp add: ustr_of_def)
  have r2: "is_likely_sentence_boundary ascii_platform ?u 2 = Inr True"
    using period_rule [of 2 ascii_platform ?u] g by blast
  have "isalnum ascii_platform (?t ! 2)" by code_simp
  moreover have "length (word_run ascii_platform ?t 1) \<le> 2" by code_simp
  moreover have "?t ! 1 = PERIOD" by (simp add: ustr_of_def)
  ultimately show ?thesis using r0 r1 r2 by simp
qed


section \<open>Properties of the tokenizer adapter\<close>

subsection \<open>Fallback to the text\<close>

lemma select_result_Nil_iff: "select_result P sentences = [] \<longleftrightarrow> sentences = []"
  by (auto simp: select_result_def Let_def)

lemma post_pass_nonempty: "post_pass P text sentences \<noteq> []"
  by (simp add: post_pass_def Let_def)

lemma post_pass_Nil: "post_pass P text [] = [text]"
  by (simp add: post_pass_def Let_def select_result_Nil_iff)

text \<open>
  Claim C7, as amended. \<open>_tokenize_sentences\<close> returns a non-empty list for every text,
  backend and callback, and no exception leaves it (the model returns a list in every
  branch). When the callback or the backend raises, when Stanza is selected without
  being initialised, or when the tokenization is empty, the result is the one-element
  list of the text the tokenizer was given: the input text, except in poetic mode without
  line-break preservation and without a callback, where it is the input with every
  newline replaced by a space.
\<close>

theorem tokenize_fallback:
  "tokenize_sentences_adapter P tok text cb pm plb \<noteq> []
   \<and> (cb = Some callback \<and> (callback text = Inl e \<or> callback text = Inr []) \<longrightarrow>
        tokenize_sentences_adapter P tok text cb pm plb = [text])
   \<and> (cb = None \<and> \<not> pm
        \<and> (run_backend P tok text = Inl e \<or> run_backend P tok text = Inr None
            \<or> run_backend P tok text = Inr (Some [])) \<longrightarrow>
        tokenize_sentences_adapter P tok text cb pm plb = [text])
   \<and> (cb = None \<and> pm \<and> plb \<and> filter (\<lambda>line. strip P line \<noteq> []) (split_on NEWLINE text) = [] \<longrightarrow>
        tokenize_sentences_adapter P tok text cb pm plb = [text])
   \<and> (cb = None \<and> pm \<and> \<not> plb
        \<and> (run_backend P tok (replace_char NEWLINE SPACE text) = Inl e
            \<or> run_backend P tok (replace_char NEWLINE SPACE text) = Inr None
            \<or> run_backend P tok (replace_char NEWLINE SPACE text) = Inr (Some [])) \<longrightarrow>
        tokenize_sentences_adapter P tok text cb pm plb = [replace_char NEWLINE SPACE text])"
proof (intro conjI impI)
  show "tokenize_sentences_adapter P tok text cb pm plb \<noteq> []"
    by (simp add: tokenize_sentences_adapter_def Let_def post_pass_nonempty
          split: option.split sum.split)
next
  assume "cb = Some callback \<and> (callback text = Inl e \<or> callback text = Inr [])"
  then show "tokenize_sentences_adapter P tok text cb pm plb = [text]"
    by (auto simp: tokenize_sentences_adapter_def post_pass_Nil)
next
  assume "cb = None \<and> \<not> pm
        \<and> (run_backend P tok text = Inl e \<or> run_backend P tok text = Inr None
            \<or> run_backend P tok text = Inr (Some []))"
  then show "tokenize_sentences_adapter P tok text cb pm plb = [text]"
    by (auto simp: tokenize_sentences_adapter_def post_pass_Nil)
next
  assume "cb = None \<and> pm \<and> plb \<and> filter (\<lambda>line. strip P line \<noteq> []) (split_on NEWLINE text) = []"
  then show "tokenize_sentences_adapter P tok text cb pm plb = [text]"
    by (simp add: tokenize_sentences_adapter_def post_pass_Nil)
next
  assume "cb = None \<and> pm \<and> \<not> plb
        \<and> (run_backend P tok (replace_char NEWLINE SPACE text) = Inl e
            \<or> run_backend P tok (replace_char NEWLINE SPACE text) = Inr None
            \<or> run_backend P tok (replace_char NEWLINE SPACE text) = Inr (Some []))"
  then show "tokenize_sentences_adapter P tok text cb pm plb = [replace_char NEWLINE SPACE text]"
    by (auto simp: tokenize_sentences_adapter_def post_pass_Nil Let_def)
qed


theorem tokenize_fallback_witness:
  "tokenize_sentences_adapter ascii_platform ''stanza'' (ustr_of ''Hi there'')
     (Some (\<lambda>t. Inl RuntimeError)) False False = [ustr_of ''Hi there'']
   \<and> tokenize_sentences_adapter ascii_platform ''nltk'' (ustr_of ''Hi there'') None False False
       = [ustr_of ''Hi there'']
   \<and> tokenize_sentences_adapter ascii_platform ''stanza'' [32, 10, 32] None True True = [[32, 10, 32]]
   \<and> tokenize_sentences_adapter ascii_platform ''stanza'' [97, 10, 98] None True False
       = [replace_char NEWLINE SPACE [97, 10, 98]]"
proof -
  have a: "tokenize_sentences_adapter ascii_platform ''stanza'' (ustr_of ''Hi there'')
     (Some (\<lambda>t. Inl RuntimeError)) False False = [ustr_of ''Hi there'']"
    using tokenize_fallback [of ascii_platform "''stanza''" "ustr_of ''Hi there''"
        "Some (\<lambda>t. Inl RuntimeError)" False False "\<lambda>t. Inl RuntimeError" RuntimeError]
    by simp
  have "run_backend ascii_platform ''nltk'' (ustr_of ''Hi there'') = Inl LookupError"
    by (simp add: run_backend_def ascii_platform_def)
  then have b: "tokenize_sentences_adapter ascii_platform ''nltk'' (ustr_of ''Hi there'') None
      False False = [ustr_of ''Hi there'']"
    using tokenize_fallback [of ascii_platform "''nltk''" "ustr_of ''Hi there''" None False False
        undefined LookupError]
    by simp
  have "filter (\<lambda>line. strip ascii_platform line \<noteq> []) (split_on NEWLINE [32, 10, 32]) = []"
    by code_simp
  then have c: "tokenize_sentences_adapter ascii_platform ''stanza'' [32, 10, 32] None True True
      = [[32, 10, 32]]"
    using tokenize_fallback [of ascii_platform "''stanza''" "[32, 10, 32]" None True True]
    by simp
  have "run_backend ascii_platform ''stanza'' (replace_char NEWLINE SPACE [97, 10, 98]) = Inr None"
    by (simp add: run_backend_def ascii_platform_def)
  then have d: "tokenize_sentences_adapter ascii_platform ''stanza'' [97, 10, 98] None True False
      = [replace_char NEWLINE SPACE [97, 10, 98]]"
    using tokenize_fallback [of ascii_platform "''stanza''" "[97, 10, 98]" None True False]
    by simp
  from a b c d show ?thesis by simp
qed

text \<open>
  The claim as first stated, with the input text unchanged in every case, fails in poetic
  mode: with the unknown tokenizer name \<open>spacy\<close> the code raises \<open>ValueError\<close> after
  it has replaced the newline, and the handler returns the replaced text.
\<close>

theorem tokenize_fallback_counterexample:
  "run_backend ascii_platform ''spacy'' (replace_char NEWLINE SPACE [97, NEWLINE, 98]) = Inl ValueError
   \<and> tokenize_sentences_adapter ascii_platform ''spacy'' [97, NEWLINE, 98] None True False
       = [[97, SPACE, 98]]
   \<and> [[97, SPACE, 98]] \<noteq> [[97, NEWLINE, 98 :: nat]]"
  by (simp add: tokenize_sentences_adapter_def run_backend_def replace_char_def)


subsection \<open>The merge of short sentences\<close>

lemma join_spaces_Nil_iff: "join_spaces r = [] \<longleftrightarrow> r = []"
  by (cases r) (simp_all add: join_spaces_def)

lemma join_spaces_snoc: "join_spaces (r @ [s]) = join_spaces r @ s @ [SPACE]"
  by (simp add: join_spaces_def)

lemma merge_runs_Nil: "merge_runs P [] = []"
  using merge_runs.simps [of P "[]"] by simp

lemma merge_runs_prefix_long:
  assumes "\<forall>s\<in>set r. length s < 10" and "\<not> length s < 10"
  shows "merge_runs P (r @ s # rest) = strip P (join_spaces r @ s) # merge_runs P rest"
proof -
  have t: "takeWhile (\<lambda>s. length s < 10) (r @ s # rest) = r"
    using assms by (simp add: takeWhile_append2)
  have d: "dropWhile (\<lambda>s. length s < 10) (r @ s # rest) = s # rest"
    using assms by (simp add: dropWhile_append2)
  show ?thesis
    using merge_runs.simps [of P "r @ s # rest"] by (simp add: t d)
qed

lemma merge_runs_all_short:
  assumes "\<forall>s\<in>set r. length s < 10" and "r \<noteq> []"
  shows "merge_runs P r = [strip P (join_spaces r)]"
proof -
  have t: "takeWhile (\<lambda>s. length s < 10) r = r"
    using assms by (simp add: takeWhile_eq_all_conv)
  have d: "dropWhile (\<lambda>s. length s < 10) r = []"
    using assms by simp
  show ?thesis
    using assms(2) merge_runs.simps [of P r] by (simp add: t d)
qed

lemma combine_loop_merge:
  "\<forall>s\<in>set r. length s < 10 \<Longrightarrow>
   (case combine_loop P combined (join_spaces r) ss of
      (c, temp) \<Rightarrow> if temp \<noteq> [] then c @ [strip P temp] else c)
   = combined @ merge_runs P (r @ ss)"
proof (induction ss arbitrary: combined r)
  case Nil
  show ?case
  proof (cases "r = []")
    case True
    then show ?thesis by (simp add: merge_runs_Nil join_spaces_def)
  next
    case False
    then show ?thesis using Nil by (simp add: merge_runs_all_short join_spaces_Nil_iff)
  qed
next
  case (Cons s rest)
  show ?case
  proof (cases "length s < 10")
    case True
    with Cons.prems have "\<forall>x\<in>set (r @ [s]). length x < 10" by simp
    from Cons.IH [OF this, of combined] True show ?thesis
      by (simp add: join_spaces_snoc)
  next
    case False
    have e: "\<forall>x\<in>set ([] :: ustr list). length x < 10" by simp
    have m: "merge_runs P (r @ s # rest) = strip P (join_spaces r @ s) # merge_runs P rest"
      using Cons.prems False by (rule merge_runs_prefix_long)
    show ?thesis
    proof (cases "r = []")
      case True
      with Cons.IH [OF e, of "combined @ [strip P s]"] False m show ?thesis
        by (simp add: join_spaces_def)
    next
      case r: False
      with Cons.IH [OF e, of "combined @ [strip P (join_spaces r @ s)]"] False m show ?thesis
        by (simp add: join_spaces_Nil_iff) (simp add: join_spaces_def)
    qed
  qed
qed

text \<open>
  Claim C8, as amended. The post-pass of \<open>_tokenize_sentences\<close> computes the merge of
  the specification: every run of adjacent entries shorter than 10 characters is merged
  into the entry that follows it, joined with spaces and stripped. What the function
  returns for a raw tokenizer result is the merged list exactly when the merged list is
  non-empty and strictly shorter than the raw list; otherwise it is the raw list
  unchanged when the raw list is non-empty, and the one-element list of the text when the
  raw list is empty. This is the return value of \<open>_tokenize_sentences\<close> whenever the
  callback or the backend returns a list of sentences, in every mode (in poetic mode
  the raw list is the list of non-blank lines, or the backend's result on the text with
  its newlines replaced).
\<close>

theorem post_pass_merge:
  "combine_short_sentences P sentences = merge_runs P sentences
   \<and> post_pass P inp sentences =
       (if merge_runs P sentences \<noteq> [] \<and> length (merge_runs P sentences) < length sentences
        then merge_runs P sentences
        else if sentences \<noteq> [] then sentences else [inp])
   \<and> (cb = Some callback \<and> callback inp = Inr sentences \<longrightarrow>
        tokenize_sentences_adapter P tok inp cb pm plb = post_pass P inp sentences)
   \<and> (cb = None \<and> \<not> pm \<and> run_backend P tok inp = Inr (Some sentences) \<longrightarrow>
        tokenize_sentences_adapter P tok inp cb pm plb = post_pass P inp sentences)
   \<and> (cb = None \<and> pm \<and> plb \<longrightarrow>
        tokenize_sentences_adapter P tok inp cb pm plb
          = post_pass P inp (filter (\<lambda>line. strip P line \<noteq> []) (split_on NEWLINE inp)))
   \<and> (cb = None \<and> pm \<and> \<not> plb
        \<and> run_backend P tok (replace_char NEWLINE SPACE inp) = Inr (Some sentences) \<longrightarrow>
        tokenize_sentences_adapter P tok inp cb pm plb
          = post_pass P (replace_char NEWLINE SPACE inp) sentences)"
proof -
  have c: "combine_short_sentences P sentences = merge_runs P sentences"
    using combine_loop_merge [of "[]" P "[]" sentences]
    by (simp add: combine_short_sentences_def join_spaces_def)
  have s: "select_result P sentences =
       (if merge_runs P sentences \<noteq> [] \<and> length (merge_runs P sentences) < length sentences
        then merge_runs P sentences else sentences)"
    using c by (simp add: select_result_def)
  have p: "post_pass P inp sentences =
       (if merge_runs P sentences \<noteq> [] \<and> length (merge_runs P sentences) < length sentences
        then merge_runs P sentences
        else if sentences \<noteq> [] then sentences else [inp])"
    unfolding post_pass_def Let_def s by simp
  have a1: "cb = Some callback \<and> callback inp = Inr sentences \<longrightarrow>
        tokenize_sentences_adapter P tok inp cb pm plb = post_pass P inp sentences"
    by (simp add: tokenize_sentences_adapter_def)
  have a2: "cb = None \<and> \<not> pm \<and> run_backend P tok inp = Inr (Some sentences) \<longrightarrow>
        tokenize_sentences_adapter P tok inp cb pm plb = post_pass P inp sentences"
    by (simp add: tokenize_sentences_adapter_def)
  have a3: "cb = None \<and> pm \<and> plb \<longrightarrow>
        tokenize_sentences_adapter P tok inp cb pm plb
          = post_pass P inp (filter (\<lambda>line. strip P line \<noteq> []) (split_on NEWLINE inp))"
    by (simp add: tokenize_sentences_adapter_def)
  have a4: "cb = None \<and> pm \<and> \<not> plb
        \<and> run_backend P tok (replace_char NEWLINE SPACE inp) = Inr (Some sentences) \<longrightarrow>
        tokenize_sentences_adapter P tok inp cb pm plb
          = post_pass P (replace_char NEWLINE SPACE inp) sentences"
    by (simp add: tokenize_sentences_adapter_def Let_def)
  from c p a1 a2 a3 a4 show ?thesis by blast
qed

theorem post_pass_merge_witness:
  "period_tokenizer (ustr_of ''Hi. Ok. A longer sentence here. End'')
     = Inr [ustr_of ''Hi.'', ustr_of ''Ok.'', ustr_of ''A longer sentence here.'', ustr_of ''End'']
   \<and> merge_runs ascii_platform
         [ustr_of ''Hi.'', ustr_of ''Ok.'', ustr_of ''A longer sentence here.'', ustr_of ''End'']
       = [ustr_of ''Hi. Ok. A longer sentence here.'', ustr_of ''End'']
   \<and> tokenize_sentences_adapter ascii_platform ''stanza''
         (ustr_of ''Hi. Ok. A longer sentence here. End'') (Some period_tokenizer) False False
       = [ustr_of ''Hi. Ok. A longer sentence here.'', ustr_of ''End'']
   \<and> tokenize_sentences_adapter ascii_platform ''stanza''
         (ustr_of ''One long sentence.'') (Some whole_text_tokenizer) False False
       = [ustr_of ''One long sentence.'']"
proof -
  let ?t = "ustr_of ''Hi. Ok. A longer sentence here. End''"
  let ?ss = "[ustr_of ''Hi.'', ustr_of ''Ok.'', ustr_of ''A longer sentence here.'', ustr_of ''End'']"
  let ?m = "[ustr_of ''Hi. Ok. A longer sentence here.'', ustr_of ''End'']"
  have c: "period_tokenizer ?t = Inr ?ss"
    by (simp add: period_tokenizer_def ustr_of_def)
  note r = post_pass_merge [where P = ascii_platform and sentences = ?ss and inp = ?t
      and cb = "Some period_tokenizer" and callback = period_tokenizer and tok = "''stanza''"
      and pm = False and plb = False]
  have "combine_short_sentences ascii_platform ?ss = ?m"
    by (simp add: combine_short_sentences_def ustr_of_def strip_def lstrip_def rstrip_def
          ascii_platform_def ascii_isspace_def)
  with r have m: "merge_runs ascii_platform ?ss = ?m" by simp
  have l: "length ?m < length ?ss" "?m \<noteq> []" by simp_all
  from r c have "tokenize_sentences_adapter ascii_platform ''stanza'' ?t
         (Some period_tokenizer) False False
       = (if merge_runs ascii_platform ?ss \<noteq> []
             \<and> length (merge_runs ascii_platform ?ss) < length ?ss
          then merge_runs ascii_platform ?ss
          else if ?ss \<noteq> [] then ?ss else [?t])"
    by simp
  then have a: "tokenize_sentences_adapter ascii_platform ''stanza'' ?t
         (Some period_tokenizer) False False = ?m"
    unfolding m using l by simp
  let ?u = "ustr_of ''One long sentence.''"
  note r2 = post_pass_merge [where P = ascii_platform and sentences = "[?u]" and inp = ?u
      and cb = "Some whole_text_tokenizer" and callback = whole_text_tokenizer
      and tok = "''stanza''" and pm = False and plb = False]
  have "combine_short_sentences ascii_platform [?u] = [?u]"
    by (simp add: combine_short_sentences_def ustr_of_def strip_def lstrip_def rstrip_def
          ascii_platform_def ascii_isspace_def)
  with r2 have m2: "merge_runs ascii_platform [?u] = [?u]" by simp
  have w: "whole_text_tokenizer ?u = Inr [?u]" by (simp add: whole_text_tokenizer_def)
  from r2 w have "tokenize_sentences_adapter ascii_platform ''stanza'' ?u
         (Some whole_text_tokenizer) False False
       = (if merge_runs ascii_platform [?u] \<noteq> []
             \<and> length (merge_runs ascii_platform [?u]) < length [?u]
          then merge_runs ascii_platform [?u]
          else if [?u] \<noteq> [] then [?u] else [?u])"
    by simp
  then have b: "tokenize_sentences_adapter ascii_platform ''stanza'' ?u
         (Some whole_text_tokenizer) False False = [?u]"
    unfolding m2 by simp
  from c m a b show ?thesis by simp
qed

text \<open>
  The claim as first stated, with the raw result returned unchanged whenever the merged
  list is not adopted, fails for an empty raw result: the merged list is empty too and is
  not adopted, and the function returns the one-element list of the text, not the empty
  raw list.
\<close>

theorem post_pass_merge_counterexample:
  "empty_tokenizer (ustr_of ''Hi'') = Inr []
   \<and> combine_short_sentences ascii_platform [] = []
   \<and> tokenize_sentences_adapter ascii_platform ''stanza'' (ustr_of ''Hi'')
         (Some empty_tokenizer) False False = [ustr_of ''Hi'']
   \<and> [ustr_of ''Hi''] \<noteq> ([] :: ustr list)"
  by (simp add: empty_tokenizer_def combine_short_sentences_def tokenize_sentences_adapter_def
        post_pass_def select_result_def)


section \<open>Properties of one loop iteration\<close>

lemma slice_to_from: "slice_to xs k @ slice_from xs k = xs"
  by (simp add: slice_to_def slice_from_def)

lemma slice_nonneg:
  "0 \<le> k \<Longrightarrow> slice_to xs k = take (nat k) xs \<and> slice_from xs k = drop (nat k) xs"
  by (simp add: slice_to_def slice_from_def slice_bound_def min_def)

lemma adjust_flags_fields:
  "quick_yield_single_sentence_fragment (adjust_flags cfg) =
     (quick_yield_single_sentence_fragment cfg \<or> quick_yield_for_all_sentences cfg
      \<or> quick_yield_every_fragment cfg)"
  "quick_yield_for_all_sentences (adjust_flags cfg) =
     (quick_yield_for_all_sentences cfg \<or> quick_yield_every_fragment cfg)"
  "quick_yield_every_fragment (adjust_flags cfg) = quick_yield_every_fragment cfg"
  "context_size (adjust_flags cfg) = context_size cfg"
  "minimum_sentence_length (adjust_flags cfg) = minimum_sentence_length cfg"
  "minimum_first_fragment_length (adjust_flags cfg) = minimum_first_fragment_length cfg"
  "cleanup_text_emojis (adjust_flags cfg) = cleanup_text_emojis cfg"
  "tokenize_sentences (adjust_flags cfg) = tokenize_sentences cfg"
  "tokenizer (adjust_flags cfg) = tokenizer cfg"
  "filter_first_non_alnum_characters (adjust_flags cfg) = filter_first_non_alnum_characters cfg"
  "force_first_fragment_after_words (adjust_flags cfg) = force_first_fragment_after_words cfg"
  "poetic_mode (adjust_flags cfg) = poetic_mode cfg"
  "preserve_line_breaks (adjust_flags cfg) = preserve_line_breaks cfg"
  "max_buffer_size (adjust_flags cfg) = max_buffer_size cfg"
  "tokenization_interval (adjust_flags cfg) = tokenization_interval cfg"
  "strict_punctuation_mode (adjust_flags cfg) = strict_punctuation_mode cfg"
  "min_chars_after_delimiter (adjust_flags cfg) = min_chars_after_delimiter cfg"
  "sentence_fragment_delimiters (adjust_flags cfg) = sentence_fragment_delimiters cfg"
  "full_sentence_delimiters (adjust_flags cfg) = full_sentence_delimiters cfg"
  by (simp_all add: adjust_flags_def Let_def)

lemma index_last: "xs \<noteq> [] \<Longrightarrow> index xs (- 1) = Inr (last xs)"
  by (cases xs rule: rev_cases) (simp_all add: index_def)

lemma index_empty: "index [] i = Inl IndexError"
  by (simp add: index_def)

subsection \<open>The forced split\<close>

text \<open>
  Claim C3. Let \<open>st1\<close> be the state once the character is appended and counted. If its
  buffer is longer than \<open>max_buffer_size\<close>, the iteration ends at once: it yields the
  cleaned \<open>buffer[:max_buffer_size // 2]\<close> and nothing else (no tokenizer call, no
  boundary check), keeps \<open>buffer[max_buffer_size // 2:]\<close> as the buffer, lowers the word
  count by 6 but not below 0, and resets the tokenization counter and the count of
  characters since the last strong delimiter. The two slices partition the buffer, and
  for a limit that is not negative they are its first \<open>max_buffer_size // 2\<close> characters
  and the rest.
\<close>

theorem forced_split_step:
  assumes "st1 = append_char P cfg st char"
    and "\<not> leading_filtered P cfg st char"
    and "max_buffer_size cfg < int (length (buffer st1))"
  shows "process_char P cfg st char =
           Inr (st1\<lparr>buffer := slice_from (buffer st1) (max_buffer_size cfg div 2),
                    word_count := max 0 (word_count st1 - 6),
                    tokenization_counter := 0,
                    chars_since_last_strong_delim := 0\<rparr>,
                [Yield ForcedSplit
                   (slice_to (buffer st1) (max_buffer_size cfg div 2))
                   (clean_text P (slice_to (buffer st1) (max_buffer_size cfg div 2))
                      (cleanup_text_emojis cfg) True)])
         \<and> buffer st1 = lstrip P (buffer st @ [char])
         \<and> slice_to (buffer st1) (max_buffer_size cfg div 2)
             @ slice_from (buffer st1) (max_buffer_size cfg div 2) = buffer st1
         \<and> (0 \<le> max_buffer_size cfg \<longrightarrow>
              slice_to (buffer st1) (max_buffer_size cfg div 2)
                = take (nat (max_buffer_size cfg div 2)) (buffer st1)
              \<and> slice_from (buffer st1) (max_buffer_size cfg div 2)
                = drop (nat (max_buffer_size cfg div 2)) (buffer st1))"
proof -
  have "0 \<le> max_buffer_size cfg \<Longrightarrow> 0 \<le> max_buffer_size cfg div 2" by simp
  then have nn: "0 \<le> max_buffer_size cfg \<longrightarrow>
              slice_to (buffer st1) (max_buffer_size cfg div 2)
                = take (nat (max_buffer_size cfg div 2)) (buffer st1)
              \<and> slice_from (buffer st1) (max_buffer_size cfg div 2)
                = drop (nat (max_buffer_size cfg div 2)) (buffer st1)"
    using slice_nonneg by blast
  have b: "buffer st1 = lstrip P (buffer st @ [char])"
    using assms(1) by (simp add: append_char_def Let_def)
  have "process_char P cfg st char = Inr (forced_split P cfg st1)"
    using assms by (simp add: process_char_def Let_def)
  then show ?thesis
    using nn b by (simp add: forced_split_def Let_def emit_def slice_to_from)
qed

theorem forced_split_step_witness:
  "process_char ascii_platform config_limit8 state_abcdefgh 105 =
     Inr (state_abcdefgh\<lparr>buffer := ustr_of ''efghi'', word_count := 0,
            tokenization_counter := 0, chars_since_last_strong_delim := 0\<rparr>,
          [Yield ForcedSplit (ustr_of ''abcd'') (ustr_of ''abcd'')])"
proof -
  let ?st1 = "append_char ascii_platform config_limit8 state_abcdefgh 105"
  have h2: "\<not> leading_filtered ascii_platform config_limit8 state_abcdefgh 105"
    by (simp add: leading_filtered_def state_abcdefgh_def ustr_of_def)
  have b: "buffer ?st1 = ustr_of ''abcdefghi''"
    by (simp add: append_char_def Let_def state_abcdefgh_def ustr_of_def lstrip_def
          ascii_platform_def ascii_isspace_def)
  have h3: "max_buffer_size config_limit8 < int (length (buffer ?st1))"
    by (simp add: b) (simp add: config_limit8_def default_config_def ustr_of_def)
  have w: "word_count ?st1 = 0"
    by (simp add: append_char_def Let_def state_abcdefgh_def initial_state_def
          ascii_platform_def ascii_isspace_def config_limit8_def default_config_def)
  have k: "max_buffer_size config_limit8 div 2 = 4"
    by (simp add: config_limit8_def default_config_def)
  have c: "clean_text ascii_platform (ustr_of ''abcd'') (cleanup_text_emojis config_limit8) True
             = ustr_of ''abcd''"
    by (simp add: clean_text_def config_limit8_def default_config_def strip_def lstrip_def
          rstrip_def ustr_of_def ascii_platform_def ascii_isspace_def)
  have s: "slice_to (ustr_of ''abcdefghi'') 4 = ustr_of ''abcd''"
          "slice_from (ustr_of ''abcdefghi'') 4 = ustr_of ''efghi''"
    by (simp_all add: slice_to_def slice_from_def slice_bound_def ustr_of_def)
  have e: "?st1\<lparr>buffer := ustr_of ''efghi'', word_count := 0,
            tokenization_counter := 0, chars_since_last_strong_delim := 0\<rparr>
          = state_abcdefgh\<lparr>buffer := ustr_of ''efghi'', word_count := 0,
            tokenization_counter := 0, chars_since_last_strong_delim := 0\<rparr>"
    by (simp add: append_char_def Let_def)
  from forced_split_step [OF refl h2 h3] show ?thesis
    by (simp add: b w k c s e)
qed

subsection \<open>The first fragment\<close>

text \<open>
  Claim C6, as amended. Let \<open>st1\<close> be the state once the character is appended and
  counted, with a non-empty buffer that is not longer than \<open>max_buffer_size\<close> (a longer
  buffer is force-split before the first-fragment logic is reached). In first-fragment
  mode, with \<open>quick_yield_single_sentence_fragment\<close> set (as passed, or switched on
  before the loop by one of the other two quick-yield flags) and at least
  \<open>minimum_first_fragment_length\<close> characters in the buffer: if the last character of
  the buffer is a fragment delimiter, or the current character is whitespace and the word
  count has reached \<open>force_first_fragment_after_words\<close>, then the iteration ends here.
  It yields nothing and changes nothing more when the last character is a comma and the
  trimmed buffer has fewer than 6 characters. Otherwise it yields the cleaned buffer,
  clears the buffer, resets the word count, the tokenization counter and the count of
  characters since the last strong delimiter, increments the fragment count, and leaves
  first-fragment mode unless \<open>quick_yield_every_fragment\<close> is set.
\<close>

theorem first_fragment_step:
  assumes "st1 = append_char P (adjust_flags cfg) st char"
    and "\<not> leading_filtered P (adjust_flags cfg) st char"
    and "int (length (buffer st1)) \<le> max_buffer_size cfg"
    and "buffer st1 \<noteq> []"
    and "is_first_sentence st"
    and "quick_yield_single_sentence_fragment (adjust_flags cfg)"
    and "minimum_first_fragment_length cfg \<le> int (length (buffer st1))"
    and "last (buffer st1) \<in> set (sentence_fragment_delimiters cfg)
         \<or> (isspace P char \<and> force_first_fragment_after_words cfg \<le> word_count st1)"
  shows "process_char P (adjust_flags cfg) st char =
           (if last (buffer st1) = COMMA \<and> length (strip P (buffer st1)) < 6
            then Inr (st1, [])
            else Inr (st1\<lparr>buffer := [],
                         is_first_sentence := quick_yield_every_fragment cfg,
                         word_count := 0,
                         fragment_count := fragment_count st1 + 1,
                         tokenization_counter := 0,
                         chars_since_last_strong_delim := 0\<rparr>,
                      [Yield FirstFragment (buffer st1)
                         (clean_text P (buffer st1) (cleanup_text_emojis cfg) True)]))"
proof -
  have f: "is_first_sentence st1" using assms(1,5) by (simp add: append_char_def Let_def)
  have "first_fragment P (adjust_flags cfg) st1 char =
          (if last (buffer st1) = COMMA \<and> length (strip P (buffer st1)) < 6
            then Inr (Some (st1, []))
            else Inr (Some (st1\<lparr>buffer := [],
                         is_first_sentence := quick_yield_every_fragment cfg,
                         word_count := 0,
                         fragment_count := fragment_count st1 + 1,
                         tokenization_counter := 0,
                         chars_since_last_strong_delim := 0\<rparr>,
                      [Yield FirstFragment (buffer st1)
                         (clean_text P (buffer st1) (cleanup_text_emojis cfg) True)])))"
    using f assms(4,6,7,8)
    by (auto simp: first_fragment_def adjust_flags_fields index_last emit_def)
  then show ?thesis
    using assms(1,2,3) by (simp add: process_char_def Let_def adjust_flags_fields)
qed


theorem first_fragment_step_witness:
  "process_char ascii_platform (adjust_flags default_config) state_hello_yo PERIOD =
     Inr (state_hello_yo\<lparr>buffer := [], is_first_sentence := False, word_count := 0,
            fragment_count := 1, tokenization_counter := 0,
            chars_since_last_strong_delim := 0\<rparr>,
          [Yield FirstFragment (ustr_of ''Hello yo.'') (ustr_of ''Hello yo.'')])"
proof -
  let ?st1 = "append_char ascii_platform (adjust_flags default_config) state_hello_yo PERIOD"
  have b: "buffer ?st1 = ustr_of ''Hello yo.''"
    by (simp add: append_char_def Let_def state_hello_yo_def ustr_of_def lstrip_def
          ascii_platform_def ascii_isspace_def)
  have h2: "\<not> leading_filtered ascii_platform (adjust_flags default_config) state_hello_yo PERIOD"
    by (simp add: leading_filtered_def state_hello_yo_def ustr_of_def)
  have h3: "int (length (buffer ?st1)) \<le> max_buffer_size default_config"
    by (simp add: b) (simp add: default_config_def ustr_of_def)
  have h4: "buffer ?st1 \<noteq> []" by (simp add: b) (simp add: ustr_of_def)
  have h5: "is_first_sentence state_hello_yo"
    by (simp add: state_hello_yo_def initial_state_def)
  have h6: "quick_yield_single_sentence_fragment (adjust_flags default_config)"
    by (simp add: adjust_flags_def default_config_def)
  have h7: "minimum_first_fragment_length default_config \<le> int (length (buffer ?st1))"
    by (simp add: b) (simp add: default_config_def ustr_of_def)
  have l: "last (buffer ?st1) = PERIOD" by (simp add: b) (simp add: ustr_of_def)
  have h8: "last (buffer ?st1) \<in> set (sentence_fragment_delimiters default_config)
         \<or> (isspace ascii_platform PERIOD
             \<and> force_first_fragment_after_words default_config \<le> word_count ?st1)"
    by (simp add: l) (simp add: default_config_def)
  have c: "clean_text ascii_platform (ustr_of ''Hello yo.'') (cleanup_text_emojis default_config) True
             = ustr_of ''Hello yo.''"
    by (simp add: clean_text_def default_config_def strip_def lstrip_def
          rstrip_def ustr_of_def ascii_platform_def ascii_isspace_def)
  have q: "\<not> quick_yield_every_fragment default_config" by (simp add: default_config_def)
  have e: "?st1\<lparr>buffer := [], is_first_sentence := False, word_count := 0,
            fragment_count := fragment_count ?st1 + 1, tokenization_counter := 0,
            chars_since_last_strong_delim := 0\<rparr>
          = state_hello_yo\<lparr>buffer := [], is_first_sentence := False, word_count := 0,
            fragment_count := 1, tokenization_counter := 0,
            chars_since_last_strong_delim := 0\<rparr>"
    by (simp add: append_char_def Let_def state_hello_yo_def initial_state_def)
  have l': "last (ustr_of ''Hello yo.'') \<noteq> COMMA" by (simp add: ustr_of_def)
  from first_fragment_step [OF refl h2 h3 h4 h5 h6 h7 h8] show ?thesis
    by (simp add: b l' c q e)
qed

text \<open>
  The claim as first stated, without the bound on the buffer, fails when the appended
  delimiter makes the buffer overflow: with \<open>max_buffer_size = 8\<close> and the input
  \<open>abcdefgh.\<close> the loop is in first-fragment mode, the buffer has 9 characters (at least
  \<open>minimum_first_fragment_length = 8\<close>) and ends in a full stop, yet the iteration
  yields the forced split \<open>abcd\<close>, keeps \<open>efgh.\<close> in the buffer and stays in
  first-fragment mode.
\<close>

theorem first_fragment_counterexample:
  "feed ascii_platform (adjust_flags config_limit8) initial_state (ustr_of ''abcdefgh'')
     = ([], Inr state_abcdefgh)
   \<and> is_first_sentence state_abcdefgh
   \<and> quick_yield_single_sentence_fragment config_limit8
   \<and> minimum_first_fragment_length config_limit8
        \<le> int (length (buffer (append_char ascii_platform (adjust_flags config_limit8)
                                   state_abcdefgh PERIOD)))
   \<and> last (buffer (append_char ascii_platform (adjust_flags config_limit8) state_abcdefgh PERIOD))
        \<in> set (sentence_fragment_delimiters config_limit8)
   \<and> last (buffer (append_char ascii_platform (adjust_flags config_limit8) state_abcdefgh PERIOD))
        \<noteq> COMMA
   \<and> process_char ascii_platform (adjust_flags config_limit8) state_abcdefgh PERIOD =
       Inr (state_abcdefgh\<lparr>buffer := ustr_of ''efgh.'', word_count := 0,
              tokenization_counter := 0, chars_since_last_strong_delim := 0\<rparr>,
            [Yield ForcedSplit (ustr_of ''abcd'') (ustr_of ''abcd'')])"
  by (simp add: run_simps config_limit8_def state_abcdefgh_def)


section \<open>Properties of the whole run\<close>

subsection \<open>The structure of an iteration\<close>

lemma process_char_cases:
  assumes "process_char P cfg st char = Inr (st', evs)"
  obtains (filtered) "leading_filtered P cfg st char" "st' = st" "evs = []"
    | (forced) "\<not> leading_filtered P cfg st char"
        "max_buffer_size cfg < int (length (buffer (append_char P cfg st char)))"
        "forced_split P cfg (append_char P cfg st char) = (st', evs)"
    | (first) "\<not> leading_filtered P cfg st char"
        "int (length (buffer (append_char P cfg st char))) \<le> max_buffer_size cfg"
        "first_fragment P cfg (append_char P cfg st char) char = Inr (Some (st', evs))"
    | (rest) "\<not> leading_filtered P cfg st char"
        "int (length (buffer (append_char P cfg st char))) \<le> max_buffer_size cfg"
        "first_fragment P cfg (append_char P cfg st char) char = Inr None"
        "lookback P cfg (append_char P cfg st char) char = Inr (st', evs)"
  using assms
  by (auto simp: process_char_def Let_def split: if_splits sum.splits option.splits)

lemma first_fragment_cases:
  assumes "first_fragment P cfg st char = Inr (Some (st', evs))"
  obtains (skip) "st' = st" "evs = []"
    | (emit) "buffer st' = []" "tokenization_counter st' = 0"
        "evs = [emit P cfg FirstFragment (buffer st)]"
        "minimum_first_fragment_length cfg \<le> int (length (buffer st))"
  using assms
  by (auto simp: first_fragment_def split: if_splits sum.splits)

lemma lookback_cases:
  assumes "lookback P cfg st char = Inr (st', evs)"
  obtains (keep) "buffer st' = buffer st" "evs = []"
    | (confirm) st2 where "buffer st2 = buffer st"
        "\<not> context_size cfg - 1 < min_chars_after_delimiter cfg"
        "tokenizer_confirmation P cfg st2 = (st', evs)"
proof -
  from assms have "(buffer st' = buffer st \<and> evs = [])
     \<or> (\<exists>st2. buffer st2 = buffer st \<and> \<not> context_size cfg - 1 < min_chars_after_delimiter cfg
            \<and> tokenizer_confirmation P cfg st2 = (st', evs))"
    unfolding lookback_def Let_def
    by (auto split: if_splits sum.splits
          intro: exI [of _ "st\<lparr>last_delimiter_position := int (length (buffer st)) - 1,
                               tokenization_counter := 0\<rparr>"]
                 exI [of _ "st\<lparr>tokenization_counter := 0\<rparr>"])
  then show ?thesis using keep confirm by blast
qed

lemma append_char_buffer: "buffer (append_char P cfg st char) = lstrip P (buffer st @ [char])"
  by (simp add: append_char_def Let_def)

lemma append_char_counter:
  "tokenization_counter (append_char P cfg st char) = tokenization_counter st"
  by (simp add: append_char_def Let_def)

lemma lookback_guarded:
  assumes "context_size cfg - 1 < min_chars_after_delimiter cfg"
    and "lookback P cfg st char = Inr (st', evs)"
  shows "evs = [] \<and> buffer st' = buffer st
         \<and> tokenization_counter st' = tokenization_counter st
         \<and> is_first_sentence st' = is_first_sentence st"
  using assms by (auto simp: lookback_def Let_def split: if_splits sum.splits)

lemma process_char_guarded:
  assumes "context_size cfg - 1 < min_chars_after_delimiter cfg"
    and "process_char P cfg st char = Inr (st', evs)"
    and "tokenization_counter st = 0"
  shows "(\<forall>ev\<in>set evs. yielded_from ForcedSplit ev \<or> yielded_from FirstFragment ev)
         \<and> tokenization_counter st' = 0"
proof (cases "leading_filtered P cfg st char")
  case True
  with assms show ?thesis by (simp add: process_char_def)
next
  case nf: False
  let ?st1 = "append_char P cfg st char"
  have tc: "tokenization_counter ?st1 = 0"
    using assms(3) by (simp add: append_char_def Let_def)
  show ?thesis
  proof (cases "int (length (buffer ?st1)) > max_buffer_size cfg")
    case True
    with nf assms(2) show ?thesis
      by (auto simp: process_char_def Let_def forced_split_def emit_def)
  next
    case nb: False
    show ?thesis
    proof (cases "first_fragment P cfg ?st1 char")
      case (Inl e)
      with nf nb assms(2) show ?thesis by (simp add: process_char_def Let_def)
    next
      case (Inr r)
      show ?thesis
      proof (cases r)
        case None
        with Inr nf nb assms(2) have "lookback P cfg ?st1 char = Inr (st', evs)"
          by (simp add: process_char_def Let_def)
        from lookback_guarded [OF assms(1) this] tc show ?thesis by simp
      next
        case (Some x)
        with Inr nf nb assms(2) have x: "x = (st', evs)"
          by (simp add: process_char_def Let_def)
        from Inr Some x tc show ?thesis
          by (auto simp: first_fragment_def emit_def split: if_splits sum.splits)
      qed
    qed
  qed
qed

lemma feed_guarded:
  assumes "context_size cfg - 1 < min_chars_after_delimiter cfg"
  shows "tokenization_counter st = 0 \<Longrightarrow> feed P cfg st chars = (evs, r) \<Longrightarrow>
         (\<forall>ev\<in>set evs. yielded_from ForcedSplit ev \<or> yielded_from FirstFragment ev)
         \<and> (\<forall>st'. r = Inr st' \<longrightarrow> tokenization_counter st' = 0)"
proof (induction chars arbitrary: st evs r)
  case Nil
  then show ?case by auto
next
  case (Cons c cs)
  show ?case
  proof (cases "process_char P cfg st c")
    case (Inl e)
    with Cons.prems show ?thesis by auto
  next
    case (Inr x)
    obtain st1 ev1 where x: "x = (st1, ev1)" by (cases x)
    obtain evs' r' where f: "feed P cfg st1 cs = (evs', r')" by (cases "feed P cfg st1 cs")
    from process_char_guarded [OF assms Inr [unfolded x] Cons.prems(1)]
    have p: "(\<forall>ev\<in>set ev1. yielded_from ForcedSplit ev \<or> yielded_from FirstFragment ev)"
      and t: "tokenization_counter st1 = 0" by simp_all
    from Cons.IH [OF t f]
    have i: "(\<forall>ev\<in>set evs'. yielded_from ForcedSplit ev \<or> yielded_from FirstFragment ev)
         \<and> (\<forall>st'. r' = Inr st' \<longrightarrow> tokenization_counter st' = 0)" .
    from Cons.prems(2) Inr x f have "evs = ev1 @ evs'" "r = r'" by simp_all
    with p i show ?thesis by auto
  qed
qed



subsection \<open>The lookback guard under the default configuration\<close>

text \<open>
  Claim C10. With \<open>context_size = 15\<close> and \<open>min_chars_after_delimiter = 25\<close> the guard
  of the lookback check compares \<open>context_size - 1 = 14\<close> with 25 and always ends the
  iteration. Hence, for every input and whatever the other parameters are, every event of
  the character loop is a yield of the forced split or of the first-fragment logic: the
  loop never calls the tokenizer and never yields a validated sentence, and the
  tokenization counter is still 0 at the end of the input. The events of the generator
  are those of the loop followed by those of the finalization, which is then the only
  place where the tokenizer is called.
\<close>

theorem default_guard_blocks_tokenizer:
  assumes "context_size cfg = 15" and "min_chars_after_delimiter cfg = 25"
  shows "context_size cfg - 1 < min_chars_after_delimiter cfg
    \<and> (\<forall>ev\<in>set (fst (feed P (adjust_flags cfg) initial_state chars)).
          (yielded_from ForcedSplit ev \<or> yielded_from FirstFragment ev) \<and> \<not> is_tokenize ev)
    \<and> (\<forall>st. snd (feed P (adjust_flags cfg) initial_state chars) = Inr st
          \<longrightarrow> tokenization_counter st = 0)
    \<and> fst (generate_sentences_async P cfg generator) =
        fst (feed P (adjust_flags cfg) initial_state (concat generator))
        @ (case snd (feed P (adjust_flags cfg) initial_state (concat generator)) of
             Inl e \<Rightarrow> [] | Inr st \<Rightarrow> finalize P (adjust_flags cfg) st)"
proof -
  have g: "context_size (adjust_flags cfg) - 1 < min_chars_after_delimiter (adjust_flags cfg)"
    using assms by (simp add: adjust_flags_fields)
  have z: "tokenization_counter initial_state = 0" by (simp add: initial_state_def)
  obtain evs r where f: "feed P (adjust_flags cfg) initial_state chars = (evs, r)"
    by (cases "feed P (adjust_flags cfg) initial_state chars")
  have n: "yielded_from ForcedSplit ev \<or> yielded_from FirstFragment ev \<Longrightarrow> \<not> is_tokenize ev"
    for ev by (cases ev) simp_all
  from feed_guarded [OF g z f] f
  have a: "(\<forall>ev\<in>set (fst (feed P (adjust_flags cfg) initial_state chars)).
          (yielded_from ForcedSplit ev \<or> yielded_from FirstFragment ev) \<and> \<not> is_tokenize ev)
    \<and> (\<forall>st. snd (feed P (adjust_flags cfg) initial_state chars) = Inr st
          \<longrightarrow> tokenization_counter st = 0)"
    using n by auto
  have b: "fst (generate_sentences_async P cfg generator) =
        fst (feed P (adjust_flags cfg) initial_state (concat generator))
        @ (case snd (feed P (adjust_flags cfg) initial_state (concat generator)) of
             Inl e \<Rightarrow> [] | Inr st \<Rightarrow> finalize P (adjust_flags cfg) st)"
    by (simp add: generate_sentences_async_def Let_def split: prod.split sum.split)
  from assms a b show ?thesis by simp
qed


theorem default_guard_blocks_tokenizer_witness:
  "context_size default_config = 15 \<and> min_chars_after_delimiter default_config = 25
   \<and> fst (feed ascii_platform (adjust_flags default_config) initial_state
            (ustr_of ''Hello there. How are you?''))
       = [Yield FirstFragment (ustr_of ''Hello there.'') (ustr_of ''Hello there.'')]
   \<and> (yielded_from ForcedSplit
          (Yield FirstFragment (ustr_of ''Hello there.'') (ustr_of ''Hello there.''))
        \<or> yielded_from FirstFragment
          (Yield FirstFragment (ustr_of ''Hello there.'') (ustr_of ''Hello there.'')))
   \<and> fst (generate_sentences_async ascii_platform default_config
            [ustr_of ''Hello there. How are you?''])
       = [Yield FirstFragment (ustr_of ''Hello there.'') (ustr_of ''Hello there.''),
          Tokenize (ustr_of ''How are you?''),
          Yield FinalSentence (ustr_of ''How are you?'') (ustr_of ''How are you?'')]"
proof -
  have h1: "context_size default_config = 15" by (simp add: default_config_def)
  have h2: "min_chars_after_delimiter default_config = 25" by (simp add: default_config_def)
  have e: "fst (feed ascii_platform (adjust_flags default_config) initial_state
            (ustr_of ''Hello there. How are you?''))
       = [Yield FirstFragment (ustr_of ''Hello there.'') (ustr_of ''Hello there.'')]"
    by (simp add: run_simps)
  have g: "fst (generate_sentences_async ascii_platform default_config
            [ustr_of ''Hello there. How are you?''])
       = [Yield FirstFragment (ustr_of ''Hello there.'') (ustr_of ''Hello there.''),
          Tokenize (ustr_of ''How are you?''),
          Yield FinalSentence (ustr_of ''How are you?'') (ustr_of ''How are you?'')]"
    by (simp add: run_simps)
  from default_guard_blocks_tokenizer [OF h1 h2, of ascii_platform
      "ustr_of ''Hello there. How are you?''" "[]"]
  have "\<forall>ev\<in>set (fst (feed ascii_platform (adjust_flags default_config) initial_state
                        (ustr_of ''Hello there. How are you?''))).
         (yielded_from ForcedSplit ev \<or> yielded_from FirstFragment ev) \<and> \<not> is_tokenize ev"
    by blast
  then have "yielded_from ForcedSplit
          (Yield FirstFragment (ustr_of ''Hello there.'') (ustr_of ''Hello there.''))
        \<or> yielded_from FirstFragment
          (Yield FirstFragment (ustr_of ''Hello there.'') (ustr_of ''Hello there.''))"
    unfolding e by simp
  with h1 h2 e g show ?thesis by blast
qed

subsection \<open>The lengths behind the emitted fragments\<close>

lemma source_length_ok_adjust: "source_length_ok (adjust_flags cfg) ev = source_length_ok cfg ev"
proof (cases ev)
  case (Yield s t y)
  then show ?thesis by (cases s) (simp_all add: adjust_flags_fields)
next
  case (Tokenize t)
  then show ?thesis by simp
qed

lemma cleaned_adjust: "cleaned P (adjust_flags cfg) ev = cleaned P cfg ev"
  by (cases ev) (simp_all add: adjust_flags_fields)

lemma tokenizer_confirmation_events:
  assumes "tokenizer_confirmation P cfg st = (st', evs)" and "ev \<in> set evs"
  shows "source_length_ok cfg ev \<and> cleaned P cfg ev \<and> \<not> yielded_from FinalSentence ev"
  using assms
  by (auto simp: tokenizer_confirmation_def Let_def emit_def split: if_splits)

lemma process_char_events:
  assumes "process_char P cfg st char = Inr (st', evs)" and "ev \<in> set evs"
  shows "source_length_ok cfg ev \<and> cleaned P cfg ev \<and> \<not> yielded_from FinalSentence ev"
  using assms(1)
proof (cases rule: process_char_cases)
  case filtered
  with assms(2) show ?thesis by simp
next
  case forced
  with assms(2) show ?thesis by (auto simp: forced_split_def Let_def emit_def)
next
  case first
  from first(3) show ?thesis
  proof (cases rule: first_fragment_cases)
    case skip
    with assms(2) show ?thesis by simp
  next
    case emit
    with assms(2) show ?thesis by (simp add: emit_def)
  qed
next
  case rest
  from rest(4) show ?thesis
  proof (cases rule: lookback_cases)
    case keep
    with assms(2) show ?thesis by simp
  next
    case (confirm st2)
    from tokenizer_confirmation_events [OF confirm(3) assms(2)] show ?thesis .
  qed
qed

lemma feed_events:
  "feed P cfg st chars = (evs, r) \<Longrightarrow> ev \<in> set evs \<Longrightarrow>
   source_length_ok cfg ev \<and> cleaned P cfg ev \<and> \<not> yielded_from FinalSentence ev"
proof (induction chars arbitrary: st evs r)
  case Nil
  then show ?case by simp
next
  case (Cons c cs)
  show ?case
  proof (cases "process_char P cfg st c")
    case (Inl e)
    with Cons.prems show ?thesis by simp
  next
    case (Inr x)
    obtain st1 ev1 where x: "x = (st1, ev1)" by (cases x)
    obtain evs' r' where f: "feed P cfg st1 cs = (evs', r')" by (cases "feed P cfg st1 cs")
    from Cons.prems(1) Inr x f have "evs = ev1 @ evs'" by simp
    with Cons.prems(2) have "ev \<in> set ev1 \<or> ev \<in> set evs'" by simp
    then show ?thesis
    proof
      assume "ev \<in> set ev1"
      with process_char_events [OF Inr [unfolded x]] show ?thesis by blast
    next
      assume "ev \<in> set evs'"
      with Cons.IH [OF f] show ?thesis by blast
    qed
  qed
qed

lemma final_loop_events:
  "(\<forall>ev\<in>set (butlast (final_loop P cfg sb ss)). source_length_ok cfg ev)
   \<and> (\<forall>ev\<in>set (final_loop P cfg sb ss). yielded_from FinalSentence ev \<and> cleaned P cfg ev)"
proof (induction ss arbitrary: sb)
  case Nil
  then show ?case by (simp add: emit_def)
next
  case (Cons s rest)
  show ?case
  proof (cases "int (length (sb @ s)) < minimum_sentence_length cfg")
    case True
    with Cons.IH [of "sb @ s @ [SPACE]"] show ?thesis by (simp add: Let_def)
  next
    case False
    with Cons.IH [of "[]"] show ?thesis
      by (auto simp: Let_def emit_def dest: in_set_butlastD)
  qed
qed

lemma finalize_events:
  "(\<forall>ev\<in>set (butlast (finalize P cfg st)). source_length_ok cfg ev)
   \<and> (\<forall>ev\<in>set (finalize P cfg st).
         (yielded_from FinalSentence ev \<or> source_length_ok cfg ev) \<and> cleaned P cfg ev)"
proof (cases "buffer st = []")
  case True
  then show ?thesis by (simp add: finalize_def)
next
  case False
  let ?ss = "tokenize_sentences_adapter P (tokenizer cfg) (buffer st) (tokenize_sentences cfg)
               (poetic_mode cfg) (preserve_line_breaks cfg)"
  have f: "finalize P cfg st = Tokenize (buffer st) # final_loop P cfg [] ?ss"
    using False by (simp add: finalize_def)
  from final_loop_events [of P cfg "[]" ?ss] show ?thesis
    unfolding f by (auto simp: butlast.simps split: if_splits)
qed

text \<open>
  Claim C9, as amended. Whatever the configuration and the tokenizer: every fragment
  yielded from the tokenizer confirmation is the cleaned form of a sentence of at least
  \<open>minimum_sentence_length // 2\<close> characters; every first fragment is the cleaned form
  of a buffer of at least \<open>minimum_first_fragment_length\<close> characters; every fragment of
  the finalization, except the one yielded last, is the cleaned form of a join of at
  least \<open>minimum_sentence_length\<close> characters. Only the very last event of a run, and
  only when it is a yield of the finalization, can fall below its threshold. The bounds
  are on the text before cleaning; cleaning can shorten it.
\<close>

theorem emitted_source_lengths:
  "(\<forall>ev\<in>set (butlast (fst (generate_sentences_async P cfg generator))). source_length_ok cfg ev)
   \<and> (\<forall>ev\<in>set (fst (generate_sentences_async P cfg generator)).
         (yielded_from FinalSentence ev \<or> source_length_ok cfg ev) \<and> cleaned P cfg ev)"
proof -
  let ?cfg = "adjust_flags cfg"
  obtain evs r where f: "feed P ?cfg initial_state (concat generator) = (evs, r)"
    by (cases "feed P ?cfg initial_state (concat generator)")
  have mid: "\<forall>ev\<in>set evs. source_length_ok cfg ev \<and> cleaned P cfg ev"
    using feed_events [OF f] by (simp add: source_length_ok_adjust cleaned_adjust)
  show ?thesis
  proof (cases r)
    case (Inl e)
    with f have "fst (generate_sentences_async P cfg generator) = evs"
      by (simp add: generate_sentences_async_def Let_def)
    with mid show ?thesis by (auto dest: in_set_butlastD)
  next
    case (Inr st)
    with f have g: "fst (generate_sentences_async P cfg generator) = evs @ finalize P ?cfg st"
      by (simp add: generate_sentences_async_def Let_def)
    from finalize_events [of P ?cfg st]
    have fin: "(\<forall>ev\<in>set (butlast (finalize P ?cfg st)). source_length_ok cfg ev)"
      "(\<forall>ev\<in>set (finalize P ?cfg st).
         (yielded_from FinalSentence ev \<or> source_length_ok cfg ev) \<and> cleaned P cfg ev)"
      by (simp_all add: source_length_ok_adjust cleaned_adjust)
    from mid fin show ?thesis
      unfolding g by (auto simp: butlast_append dest: in_set_butlastD)
  qed
qed


theorem emitted_source_lengths_witness:
  "fst (generate_sentences_async ascii_platform config_probe
          [ustr_of ''Hello big world. This is the second sentence. a''])
     = [Tokenize (ustr_of ''Hello big world. This is the second sentence. a''),
        Yield ValidatedSentence (ustr_of ''Hello big world.'') (ustr_of ''Hello big world.''),
        Yield ValidatedSentence (ustr_of ''This is the second sentence.'')
          (ustr_of ''This is the second sentence.''),
        Tokenize (ustr_of ''a''),
        Yield FinalSentence (ustr_of ''a '') (ustr_of ''a'')]
   \<and> source_length_ok config_probe
         (Yield ValidatedSentence (ustr_of ''Hello big world.'') (ustr_of ''Hello big world.''))
   \<and> source_length_ok config_probe
         (Yield ValidatedSentence (ustr_of ''This is the second sentence.'')
            (ustr_of ''This is the second sentence.''))
   \<and> cleaned ascii_platform config_probe (Yield FinalSentence (ustr_of ''a '') (ustr_of ''a''))"
proof -
  have e: "fst (generate_sentences_async ascii_platform config_probe
          [ustr_of ''Hello big world. This is the second sentence. a''])
     = [Tokenize (ustr_of ''Hello big world. This is the second sentence. a''),
        Yield ValidatedSentence (ustr_of ''Hello big world.'') (ustr_of ''Hello big world.''),
        Yield ValidatedSentence (ustr_of ''This is the second sentence.'')
          (ustr_of ''This is the second sentence.''),
        Tokenize (ustr_of ''a''),
        Yield FinalSentence (ustr_of ''a '') (ustr_of ''a'')]"
    by (simp add: run_simps config_probe_def)
  from emitted_source_lengths [of ascii_platform config_probe
      "[ustr_of ''Hello big world. This is the second sentence. a'']"]
  have "source_length_ok config_probe
         (Yield ValidatedSentence (ustr_of ''Hello big world.'') (ustr_of ''Hello big world.''))
   \<and> source_length_ok config_probe
         (Yield ValidatedSentence (ustr_of ''This is the second sentence.'')
            (ustr_of ''This is the second sentence.''))
   \<and> cleaned ascii_platform config_probe (Yield FinalSentence (ustr_of ''a '') (ustr_of ''a''))"
    unfolding e by simp
  with e show ?thesis by blast
qed

text \<open>
  The claim as first stated, with the finalization included, fails under the default
  configuration with a tokenizer callback in place: on the input \<open>Hi\<close> the finalization
  yields \<open>Hi\<close>, 2 characters, where \<open>minimum_sentence_length // 2\<close> is 6.
\<close>

theorem emitted_source_lengths_counterexample:
  "strict_punctuation_mode config_whole_text
   \<and> generate_sentences_async ascii_platform config_whole_text [ustr_of ''Hi'']
       = ([Tokenize (ustr_of ''Hi''), Yield FinalSentence (ustr_of ''Hi '') (ustr_of ''Hi'')], None)
   \<and> fragments (fst (generate_sentences_async ascii_platform config_whole_text [ustr_of ''Hi'']))
       = [ustr_of ''Hi'']
   \<and> \<not> minimum_sentence_length config_whole_text div 2 \<le> int (length (ustr_of ''Hi''))"
  by (simp add: run_simps config_whole_text_def)

subsection \<open>The bound on the buffer\<close>

lemma length_lstrip_le: "length (lstrip P s) \<le> length s"
  by (simp add: lstrip_def length_dropWhile_le)

lemma process_char_bounded:
  assumes mbs: "2 \<le> max_buffer_size cfg"
    and tok: "context_size cfg - 1 < min_chars_after_delimiter cfg
         \<or> (\<forall>t. 1 < length (tokenize_sentences_adapter P (tokenizer cfg) t (tokenize_sentences cfg)
                          (poetic_mode cfg) (preserve_line_breaks cfg))
               \<longrightarrow> length (last (tokenize_sentences_adapter P (tokenizer cfg) t
                          (tokenize_sentences cfg) (poetic_mode cfg) (preserve_line_breaks cfg)))
                   < length t)"
    and inv: "int (length (buffer st)) \<le> max_buffer_size cfg"
    and step: "process_char P cfg st char = Inr (st', evs)"
  shows "int (length (buffer st')) \<le> max_buffer_size cfg"
  using step
proof (cases rule: process_char_cases)
  case filtered
  with inv show ?thesis by simp
next
  case forced
  let ?b = "buffer (append_char P cfg st char)"
  have l: "int (length ?b) \<le> max_buffer_size cfg + 1"
    using inv length_lstrip_le [of P "buffer st @ [char]"] by (simp add: append_char_buffer)
  have k: "1 \<le> max_buffer_size cfg div 2" using mbs by simp
  from forced(3) have "buffer st' = slice_from ?b (max_buffer_size cfg div 2)"
    by (auto simp: forced_split_def Let_def)
  then have "length (buffer st') = length ?b - min (length ?b) (nat (max_buffer_size cfg div 2))"
    using k by (simp add: slice_from_def slice_bound_def)
  with l k mbs show ?thesis by (auto simp: min_def split: if_splits)
next
  case first
  from first(3) show ?thesis
  proof (cases rule: first_fragment_cases)
    case skip
    with first(2) show ?thesis by simp
  next
    case emit
    with mbs show ?thesis by simp
  qed
next
  case rest
  from rest(4) show ?thesis
  proof (cases rule: lookback_cases)
    case keep
    with rest(2) show ?thesis by simp
  next
    case (confirm st2)
    let ?ss = "tokenize_sentences_adapter P (tokenizer cfg) (buffer st2) (tokenize_sentences cfg)
                 (poetic_mode cfg) (preserve_line_breaks cfg)"
    from confirm(2) tok have h: "1 < length ?ss \<longrightarrow> length (last ?ss) < length (buffer st2)"
      by blast
    have "length (buffer st') \<le> length (buffer st2)"
      using confirm(3) h
      by (auto simp: tokenizer_confirmation_def Let_def split: if_splits)
    with confirm(1) rest(2) show ?thesis by simp
  qed
qed

lemma feed_bounded:
  assumes mbs: "2 \<le> max_buffer_size cfg"
    and tok: "context_size cfg - 1 < min_chars_after_delimiter cfg
         \<or> (\<forall>t. 1 < length (tokenize_sentences_adapter P (tokenizer cfg) t (tokenize_sentences cfg)
                          (poetic_mode cfg) (preserve_line_breaks cfg))
               \<longrightarrow> length (last (tokenize_sentences_adapter P (tokenizer cfg) t
                          (tokenize_sentences cfg) (poetic_mode cfg) (preserve_line_breaks cfg)))
                   < length t)"
  shows "int (length (buffer st)) \<le> max_buffer_size cfg \<Longrightarrow>
         feed P cfg st chars = (evs, Inr st') \<Longrightarrow>
         int (length (buffer st')) \<le> max_buffer_size cfg"
proof (induction chars arbitrary: st evs)
  case Nil
  then show ?case by simp
next
  case (Cons c cs)
  show ?case
  proof (cases "process_char P cfg st c")
    case (Inl e)
    with Cons.prems show ?thesis by simp
  next
    case (Inr x)
    obtain st1 ev1 where x: "x = (st1, ev1)" by (cases x)
    obtain evs' r' where f: "feed P cfg st1 cs = (evs', r')" by (cases "feed P cfg st1 cs")
    from Cons.prems(2) Inr x f have r: "r' = Inr st'" by simp
    have "int (length (buffer st1)) \<le> max_buffer_size cfg"
      using process_char_bounded [OF mbs tok Cons.prems(1) Inr [unfolded x]] .
    from Cons.IH [OF this f [unfolded r]] show ?thesis .
  qed
qed

text \<open>
  Claim C2, as amended. Let \<open>max_buffer_size\<close> be at least 2, and let the tokenizer
  confirmation be out of reach (\<open>context_size - 1 < min_chars_after_delimiter\<close>, as
  under the defaults) or the tokenizer adapter be such that, whenever it returns more
  than one sentence, the last one is shorter than the text it was given. Then after every
  character of every input, that is at the end of every loop iteration that does not
  raise, the buffer has at most \<open>max_buffer_size\<close> characters.
\<close>

theorem buffer_bounded:
  assumes "2 \<le> max_buffer_size cfg"
    and "context_size cfg - 1 < min_chars_after_delimiter cfg
         \<or> (\<forall>t. 1 < length (tokenize_sentences_adapter P (tokenizer cfg) t (tokenize_sentences cfg)
                          (poetic_mode cfg) (preserve_line_breaks cfg))
               \<longrightarrow> length (last (tokenize_sentences_adapter P (tokenizer cfg) t
                          (tokenize_sentences cfg) (poetic_mode cfg) (preserve_line_breaks cfg)))
                   < length t)"
    and "snd (feed P (adjust_flags cfg) initial_state chars) = Inr st"
  shows "int (length (buffer st)) \<le> max_buffer_size cfg"
proof -
  obtain evs where f: "feed P (adjust_flags cfg) initial_state chars = (evs, Inr st)"
    using assms(3) by (cases "feed P (adjust_flags cfg) initial_state chars") simp
  have i: "int (length (buffer initial_state)) \<le> max_buffer_size (adjust_flags cfg)"
    using assms(1) by (simp add: initial_state_def adjust_flags_fields)
  have "int (length (buffer st)) \<le> max_buffer_size (adjust_flags cfg)"
    by (rule feed_bounded [OF _ _ i f]) (use assms(1,2) in \<open>simp_all add: adjust_flags_fields\<close>)
  then show ?thesis by (simp add: adjust_flags_fields)
qed

theorem buffer_bounded_witness:
  "2 \<le> max_buffer_size config_limit8
   \<and> context_size config_limit8 - 1 < min_chars_after_delimiter config_limit8
   \<and> snd (feed ascii_platform (adjust_flags config_limit8) initial_state (ustr_of ''abcdefghi''))
       = Inr (initial_state\<lparr>buffer := ustr_of ''efghi''\<rparr>)
   \<and> int (length (buffer (initial_state\<lparr>buffer := ustr_of ''efghi''\<rparr>)))
       \<le> max_buffer_size config_limit8"
proof -
  have h1: "2 \<le> max_buffer_size config_limit8"
    by (simp add: config_limit8_def default_config_def)
  have h2: "context_size config_limit8 - 1 < min_chars_after_delimiter config_limit8"
    by (simp add: config_limit8_def default_config_def)
  have h3: "snd (feed ascii_platform (adjust_flags config_limit8) initial_state
                  (ustr_of ''abcdefghi''))
       = Inr (initial_state\<lparr>buffer := ustr_of ''efghi''\<rparr>)"
    by (simp add: run_simps config_limit8_def)
  from buffer_bounded [OF h1 disjI1 [OF h2] h3] h1 h2 h3 show ?thesis by blast
qed

text \<open>
  The claim as first stated, for every configuration, fails for a limit below 2, where
  \<open>max_buffer_size // 2\<close> is 0 and the forced split takes nothing out of the buffer:
  with \<open>max_buffer_size = 1\<close> and the input \<open>ab\<close> the second iteration yields an
  empty forced split and ends with 2 characters in the buffer.
\<close>

theorem buffer_bounded_counterexample:
  "feed ascii_platform (adjust_flags config_limit1) initial_state (ustr_of ''ab'')
     = ([Yield ForcedSplit [] []], Inr (initial_state\<lparr>buffer := ustr_of ''ab''\<rparr>))
   \<and> \<not> int (length (buffer (initial_state\<lparr>buffer := ustr_of ''ab''\<rparr>)))
         \<le> max_buffer_size config_limit1"
  by (simp add: run_simps config_limit1_def)

subsection \<open>Preservation of the text\<close>

lemma ww_append [simp]:
  "without_whitespace P (a @ b) = without_whitespace P a @ without_whitespace P b"
  by (simp add: without_whitespace_def)

lemma ww_Nil [simp]: "without_whitespace P [] = []"
  by (simp add: without_whitespace_def)

lemma ww_lstrip: "without_whitespace P (lstrip P s) = without_whitespace P s"
  unfolding without_whitespace_def lstrip_def by (induction s) auto

lemma ww_rstrip: "without_whitespace P (rstrip P s) = without_whitespace P s"
proof -
  have "without_whitespace P (rev (lstrip P (rev s))) = without_whitespace P (rev (rev s))"
    using ww_lstrip [of P "rev s"] unfolding without_whitespace_def
    by (metis rev_filter)
  then show ?thesis by (simp add: rstrip_def lstrip_def)
qed

lemma ww_strip: "without_whitespace P (strip P s) = without_whitespace P s"
  by (simp add: strip_def ww_lstrip ww_rstrip)

lemma ww_space: "isspace P SPACE \<Longrightarrow> without_whitespace P [SPACE] = []"
  by (simp add: without_whitespace_def)

lemma ww_Cons_space: "isspace P c \<Longrightarrow> without_whitespace P (c # s) = without_whitespace P s"
  by (simp add: without_whitespace_def)

lemma source_texts_append: "source_texts (a @ b) = source_texts a @ source_texts b"
  by (induction a rule: source_texts.induct) simp_all

lemma source_texts_emit:
  "source_texts (map (emit P cfg s) xs) = xs"
  by (induction xs) (simp_all add: emit_def)

lemma concat_butlast_last: "xs \<noteq> [] \<Longrightarrow> concat (butlast xs) @ last xs = concat xs"
  by (induction xs) auto

lemma tokenizer_confirmation_preserves:
  assumes sp: "isspace P SPACE"
    and pres: "without_whitespace P (concat (tokenize_sentences_adapter P (tokenizer cfg) (buffer st)
                 (tokenize_sentences cfg) (poetic_mode cfg) (preserve_line_breaks cfg)))
               = without_whitespace P (buffer st)"
    and long: "\<forall>s\<in>set (butlast (tokenize_sentences_adapter P (tokenizer cfg) (buffer st)
                 (tokenize_sentences cfg) (poetic_mode cfg) (preserve_line_breaks cfg))).
                 minimum_sentence_length cfg div 2 \<le> int (length s)"
    and step: "tokenizer_confirmation P cfg st = (st', evs)"
  shows "without_whitespace P (concat (source_texts evs) @ buffer st')
         = without_whitespace P (buffer st)"
proof -
  let ?ss = "tokenize_sentences_adapter P (tokenizer cfg) (buffer st)
                 (tokenize_sentences cfg) (poetic_mode cfg) (preserve_line_breaks cfg)"
  show ?thesis
  proof (cases "1 < length ?ss
      \<and> minimum_sentence_length cfg \<le> sum_list (map (\<lambda>s. int (length s)) (butlast ?ss))")
    case False
    with step show ?thesis by (auto simp: tokenizer_confirmation_def Let_def split: if_splits)
  next
    case True
    then have ne: "?ss \<noteq> []" by auto
    have f: "filter (\<lambda>s. minimum_sentence_length cfg div 2 \<le> int (length s)) (butlast ?ss)
             = butlast ?ss"
      using long by (simp add: filter_id_conv)
    from step True
    have e: "source_texts evs = butlast ?ss"
      and b: "buffer st' = last ?ss @ (if buffer st \<noteq> [] \<and> last (buffer st) = SPACE then [SPACE] else [])"
      by (auto simp: tokenizer_confirmation_def Let_def f source_texts_emit split: if_splits)
    have "without_whitespace P (concat (source_texts evs) @ buffer st')
          = without_whitespace P (concat (butlast ?ss) @ last ?ss)"
      using sp by (simp add: e b ww_space)
    also have "\<dots> = without_whitespace P (concat ?ss)"
      by (simp only: concat_butlast_last [OF ne])
    finally show ?thesis using pres by simp
  qed
qed


lemma process_char_preserves:
  assumes sp: "isspace P SPACE"
    and pres: "\<forall>t. without_whitespace P (concat (tokenize_sentences_adapter P (tokenizer cfg) t
                 (tokenize_sentences cfg) (poetic_mode cfg) (preserve_line_breaks cfg)))
               = without_whitespace P t"
    and long: "context_size cfg - 1 < min_chars_after_delimiter cfg
         \<or> (\<forall>t. \<forall>s\<in>set (butlast (tokenize_sentences_adapter P (tokenizer cfg) t
                 (tokenize_sentences cfg) (poetic_mode cfg) (preserve_line_breaks cfg))).
                 minimum_sentence_length cfg div 2 \<le> int (length s))"
    and step: "process_char P cfg st char = Inr (st', evs)"
  shows "without_whitespace P (concat (source_texts evs) @ buffer st')
         = without_whitespace P
             (buffer st @ (if leading_filtered P cfg st char then [] else [char]))"
  using step
proof (cases rule: process_char_cases)
  case filtered
  then show ?thesis by simp
next
  case forced
  let ?b = "buffer (append_char P cfg st char)"
  from forced(3) have "concat (source_texts evs) @ buffer st' = ?b"
    by (auto simp: forced_split_def Let_def emit_def slice_to_from)
  then have "without_whitespace P (concat (source_texts evs) @ buffer st')
             = without_whitespace P ?b" by (simp only:)
  with forced(1) show ?thesis by (simp add: append_char_buffer ww_lstrip)
next
  case first
  let ?b = "buffer (append_char P cfg st char)"
  from first(3) have "concat (source_texts evs) @ buffer st' = ?b"
    by (cases rule: first_fragment_cases) (simp_all add: emit_def)
  then have "without_whitespace P (concat (source_texts evs) @ buffer st')
             = without_whitespace P ?b" by (simp only:)
  with first(1) show ?thesis by (simp add: append_char_buffer ww_lstrip)
next
  case rest
  let ?b = "buffer (append_char P cfg st char)"
  have "without_whitespace P (concat (source_texts evs) @ buffer st') = without_whitespace P ?b"
    using rest(4)
  proof (cases rule: lookback_cases)
    case keep
    then show ?thesis by simp
  next
    case (confirm st2)
    from confirm(2) long
    have l: "\<forall>s\<in>set (butlast (tokenize_sentences_adapter P (tokenizer cfg) (buffer st2)
                 (tokenize_sentences cfg) (poetic_mode cfg) (preserve_line_breaks cfg))).
                 minimum_sentence_length cfg div 2 \<le> int (length s)"
      by blast
    from pres have p: "without_whitespace P (concat (tokenize_sentences_adapter P (tokenizer cfg)
                 (buffer st2) (tokenize_sentences cfg) (poetic_mode cfg) (preserve_line_breaks cfg)))
               = without_whitespace P (buffer st2)"
      by blast
    from tokenizer_confirmation_preserves [OF sp p l confirm(3)] confirm(1)
    show ?thesis by simp
  qed
  with rest(1) show ?thesis by (simp add: append_char_buffer ww_lstrip)
qed

lemma feed_preserves:
  assumes sp: "isspace P SPACE"
    and pres: "\<forall>t. without_whitespace P (concat (tokenize_sentences_adapter P (tokenizer cfg) t
                 (tokenize_sentences cfg) (poetic_mode cfg) (preserve_line_breaks cfg)))
               = without_whitespace P t"
    and long: "context_size cfg - 1 < min_chars_after_delimiter cfg
         \<or> (\<forall>t. \<forall>s\<in>set (butlast (tokenize_sentences_adapter P (tokenizer cfg) t
                 (tokenize_sentences cfg) (poetic_mode cfg) (preserve_line_breaks cfg))).
                 minimum_sentence_length cfg div 2 \<le> int (length s))"
  shows "feed P cfg st chars = (evs, Inr st') \<Longrightarrow>
         without_whitespace P (concat (source_texts evs) @ buffer st')
         = without_whitespace P (buffer st @ accepted P cfg st chars)"
proof (induction chars arbitrary: st evs)
  case Nil
  then show ?case by simp
next
  case (Cons c cs)
  show ?case
  proof (cases "process_char P cfg st c")
    case (Inl e)
    with Cons.prems show ?thesis by simp
  next
    case (Inr x)
    obtain st1 ev1 where x: "x = (st1, ev1)" by (cases x)
    obtain evs' r' where f: "feed P cfg st1 cs = (evs', r')" by (cases "feed P cfg st1 cs")
    from Cons.prems Inr x f have r: "r' = Inr st'" and e: "evs = ev1 @ evs'" by simp_all
    have s1: "without_whitespace P (concat (source_texts ev1) @ buffer st1)
         = without_whitespace P (buffer st @ (if leading_filtered P cfg st c then [] else [c]))"
      using process_char_preserves [OF sp pres long Inr [unfolded x]] .
    have s2: "without_whitespace P (concat (source_texts evs') @ buffer st')
         = without_whitespace P (buffer st1 @ accepted P cfg st1 cs)"
      using Cons.IH [OF f [unfolded r]] .
    have "without_whitespace P (concat (source_texts evs) @ buffer st')
          = without_whitespace P (concat (source_texts ev1))
            @ without_whitespace P (concat (source_texts evs') @ buffer st')"
      by (simp add: e source_texts_append)
    also have "\<dots> = without_whitespace P (concat (source_texts ev1) @ buffer st1)
                    @ without_whitespace P (accepted P cfg st1 cs)"
      using s2 by simp
    also have "\<dots> = without_whitespace P (buffer st @ accepted P cfg st (c # cs))"
      using s1 Inr x by simp
    finally show ?thesis .
  qed
qed

lemma final_loop_preserves:
  "isspace P SPACE \<Longrightarrow>
   without_whitespace P (concat (source_texts (final_loop P cfg sb ss)))
   = without_whitespace P (sb @ concat ss)"
proof (induction ss arbitrary: sb)
  case Nil
  then show ?case by (simp add: emit_def)
next
  case (Cons s rest)
  show ?case
  proof (cases "int (length (sb @ s)) < minimum_sentence_length cfg")
    case True
    with Cons.IH [OF Cons.prems, of "sb @ s @ [SPACE]"] Cons.prems show ?thesis
      by (simp add: Let_def ww_space ww_Cons_space)
  next
    case False
    with Cons.IH [OF Cons.prems, of "[]"] show ?thesis
      by (simp add: Let_def emit_def)
  qed
qed

lemma fragments_cleaned:
  "\<forall>ev\<in>set evs. cleaned P cfg ev \<Longrightarrow>
   fragments evs = map (\<lambda>t. clean_text P t (cleanup_text_emojis cfg) True) (source_texts evs)"
  by (induction evs rule: source_texts.induct) simp_all

lemma ww_concat_strip:
  "without_whitespace P (concat (map (strip P) xs)) = without_whitespace P (concat xs)"
  by (induction xs) (simp_all add: ww_strip)

text \<open>
  What the generator preserves. Assume that a space is whitespace, that the tokenizer
  adapter neither adds nor removes a non-whitespace character, and that the tokenizer
  confirmation is out of reach or the adapter never returns a sentence before the last
  that is shorter than \<open>minimum_sentence_length // 2\<close>. Then for a run that ends
  without an exception the texts handed to \<open>_clean_text\<close>, concatenated, are up to
  whitespace the characters of the input that passed the leading filter; every fragment
  is the cleaned form of its text; and without emoji removal the concatenated fragments
  themselves are, up to whitespace, those characters.
\<close>

theorem emitted_text_preserved:
  assumes sp: "isspace P SPACE"
    and pres: "\<forall>t. without_whitespace P (concat (tokenize_sentences_adapter P (tokenizer cfg) t
                 (tokenize_sentences cfg) (poetic_mode cfg) (preserve_line_breaks cfg)))
               = without_whitespace P t"
    and long: "context_size cfg - 1 < min_chars_after_delimiter cfg
         \<or> (\<forall>t. \<forall>s\<in>set (butlast (tokenize_sentences_adapter P (tokenizer cfg) t
                 (tokenize_sentences cfg) (poetic_mode cfg) (preserve_line_breaks cfg))).
                 minimum_sentence_length cfg div 2 \<le> int (length s))"
    and run: "generate_sentences_async P cfg generator = (evs, None)"
  shows "without_whitespace P (concat (source_texts evs))
           = without_whitespace P (accepted P (adjust_flags cfg) initial_state (concat generator))
       \<and> fragments evs = map (\<lambda>t. clean_text P t (cleanup_text_emojis cfg) True) (source_texts evs)
       \<and> (\<not> cleanup_text_emojis cfg \<longrightarrow>
            without_whitespace P (concat (fragments evs))
              = without_whitespace P (accepted P (adjust_flags cfg) initial_state (concat generator)))"
proof -
  let ?cfg = "adjust_flags cfg"
  obtain mid r where f: "feed P ?cfg initial_state (concat generator) = (mid, r)"
    by (cases "feed P ?cfg initial_state (concat generator)")
  from run f obtain st where r: "r = Inr st" and e: "evs = mid @ finalize P ?cfg st"
    by (cases r) (auto simp: generate_sentences_async_def Let_def)
  let ?tok = "\<lambda>t. tokenize_sentences_adapter P (tokenizer ?cfg) t
                 (tokenize_sentences ?cfg) (poetic_mode ?cfg) (preserve_line_breaks ?cfg)"
  have pres': "\<forall>t. without_whitespace P (concat (?tok t)) = without_whitespace P t"
    using pres by (simp add: adjust_flags_fields)
  have long': "context_size ?cfg - 1 < min_chars_after_delimiter ?cfg
         \<or> (\<forall>t. \<forall>s\<in>set (butlast (?tok t)). minimum_sentence_length ?cfg div 2 \<le> int (length s))"
    using long by (simp add: adjust_flags_fields)
  have m: "without_whitespace P (concat (source_texts mid) @ buffer st)
         = without_whitespace P (buffer initial_state @ accepted P ?cfg initial_state (concat generator))"
    using feed_preserves [OF sp pres' long' f [unfolded r]] .
  have fin: "without_whitespace P (concat (source_texts (finalize P ?cfg st)))
             = without_whitespace P (buffer st)"
  proof (cases "buffer st = []")
    case True
    then show ?thesis by (simp add: finalize_def)
  next
    case False
    then show ?thesis
      using final_loop_preserves [OF sp, of ?cfg "[]" "?tok (buffer st)"] pres'
      by (simp add: finalize_def)
  qed
  have a: "without_whitespace P (concat (source_texts evs))
           = without_whitespace P (accepted P ?cfg initial_state (concat generator))"
    using m fin by (simp add: e source_texts_append initial_state_def)
  have "\<forall>ev\<in>set evs. cleaned P cfg ev"
    using emitted_source_lengths [of P cfg generator] run by simp
  then have b: "fragments evs
      = map (\<lambda>t. clean_text P t (cleanup_text_emojis cfg) True) (source_texts evs)"
    by (rule fragments_cleaned)
  have c: "without_whitespace P (concat (fragments evs))
              = without_whitespace P (accepted P ?cfg initial_state (concat generator))"
    if "\<not> cleanup_text_emojis cfg"
  proof -
    from that b have "fragments evs = map (strip P) (source_texts evs)"
      by (simp add: clean_text_def)
    then show ?thesis using a by (simp add: ww_concat_strip)
  qed
  from a b c show ?thesis by blast
qed


theorem emitted_text_preserved_witness:
  "fragments (fst (generate_sentences_async ascii_platform default_config
                     [ustr_of ''.. Hello there. How are you?'']))
     = [ustr_of ''Hello there.'', ustr_of ''How are you?'']
   \<and> accepted ascii_platform (adjust_flags default_config) initial_state
         (concat [ustr_of ''.. Hello there. How are you?''])
       = ustr_of ''Hello there.How are you?''
   \<and> without_whitespace ascii_platform (concat [ustr_of ''Hello there.'', ustr_of ''How are you?''])
       = without_whitespace ascii_platform (ustr_of ''Hello there.How are you?'')"
proof -
  let ?gen = "[ustr_of ''.. Hello there. How are you?'']"
  let ?evs = "[Yield FirstFragment (ustr_of ''Hello there.'') (ustr_of ''Hello there.''),
          Tokenize (ustr_of ''How are you?''),
          Yield FinalSentence (ustr_of ''How are you?'') (ustr_of ''How are you?'')]"
  have sp: "isspace ascii_platform SPACE"
    by (simp add: ascii_platform_def ascii_isspace_def)
  have tok: "tokenize_sentences_adapter ascii_platform (tokenizer default_config) t
               (tokenize_sentences default_config) (poetic_mode default_config)
               (preserve_line_breaks default_config) = [t]" for t
    by (simp add: tokenize_sentences_adapter_def run_backend_def default_config_def
          ascii_platform_def)
  have pres: "\<forall>t. without_whitespace ascii_platform
                 (concat (tokenize_sentences_adapter ascii_platform (tokenizer default_config) t
                    (tokenize_sentences default_config) (poetic_mode default_config)
                    (preserve_line_breaks default_config)))
               = without_whitespace ascii_platform t"
    by (simp add: tok)
  have guard: "context_size default_config - 1 < min_chars_after_delimiter default_config"
    by (simp add: default_config_def)
  have run: "generate_sentences_async ascii_platform default_config ?gen = (?evs, None)"
    by (simp add: run_simps)
  have acc: "accepted ascii_platform (adjust_flags default_config) initial_state (concat ?gen)
       = ustr_of ''Hello there.How are you?''"
    by (simp add: run_simps)
  have emo: "\<not> cleanup_text_emojis default_config" by (simp add: default_config_def)
  from emitted_text_preserved [OF sp pres disjI1 [OF guard] run] emo
  have "without_whitespace ascii_platform (concat (fragments ?evs))
        = without_whitespace ascii_platform
            (accepted ascii_platform (adjust_flags default_config) initial_state (concat ?gen))"
    by blast
  then have "without_whitespace ascii_platform
               (concat [ustr_of ''Hello there.'', ustr_of ''How are you?''])
       = without_whitespace ascii_platform (ustr_of ''Hello there.How are you?'')"
    unfolding acc by simp
  with run acc show ?thesis by simp
qed

subsection \<open>A validated sentence that is never emitted\<close>

text \<open>
  Claim C1 does not hold of the code. The tokenizer confirmation yields only those
  confirmed sentences that have at least \<open>minimum_sentence_length // 2\<close> characters and
  then replaces the buffer by the last sentence: a shorter confirmed sentence is neither
  yielded nor kept. With the configuration \<open>config_probe\<close> and the input
  \<open>Hello worl. This is the second sentence. a\<close> the callback returns the three
  sentences of the text, every character of the input passes the leading filter, and the
  generator yields the second and the third sentence only; the 11 characters of
  \<open>Hello worl.\<close> are lost.
\<close>

theorem short_sentence_dropped:
  "period_tokenizer (ustr_of ''Hello worl. This is the second sentence. a'')
     = Inr [ustr_of ''Hello worl.'', ustr_of ''This is the second sentence.'', ustr_of ''a'']
   \<and> accepted ascii_platform (adjust_flags config_probe) initial_state
        (ustr_of ''Hello worl. This is the second sentence. a'')
       = ustr_of ''Hello worl. This is the second sentence. a''
   \<and> generate_sentences_async ascii_platform config_probe
        [ustr_of ''Hello worl. This is the second sentence. a'']
       = ([Tokenize (ustr_of ''Hello worl. This is the second sentence. a''),
           Yield ValidatedSentence (ustr_of ''This is the second sentence.'')
             (ustr_of ''This is the second sentence.''),
           Tokenize (ustr_of ''a''),
           Yield FinalSentence (ustr_of ''a '') (ustr_of ''a'')], None)
   \<and> without_whitespace ascii_platform
        (concat [ustr_of ''This is the second sentence.'', ustr_of ''a''])
       \<noteq> without_whitespace ascii_platform
           (ustr_of ''Hello worl. This is the second sentence. a'')"
  by (simp add: run_simps config_probe_def without_whitespace_def)

end
